theory Spec2Isabelle
  imports Complex_Main "HOL-Library.Sublist"
begin

section \<open>Python strings\<close>

text \<open>
  A Python \<open>str\<close> is a sequence of Unicode code points. A character is modelled by its
  code point, so that \<open>\<pounds>\<close> (U+00A3) is one character, as in the source, and the length
  of a string counts what Python's \<open>len\<close> counts. String constants of the source are
  written as Isabelle literals and mapped to code points by \<open>py\<close>.
\<close>

type_synonym pychar = nat
type_synonym pystr = "pychar list"

definition py :: "string \<Rightarrow> pystr" where
  "py s = map of_char s"

definition pound :: pychar where "pound = 0xA3"
definition space :: pychar where "space = 0x20"
definition plus_sign :: pychar where "plus_sign = 0x2B"
definition minus_sign :: pychar where "minus_sign = 0x2D"
definition dot :: pychar where "dot = 0x2E"
definition underscore :: pychar where "underscore = 0x5F"

text \<open>
  \<open>str.isspace\<close> of one character: the white-space code points of CPython's Unicode
  database (bidirectional class WS, B or S, or category Zs).
\<close>

definition isspace :: "pychar \<Rightarrow> bool" where
  "isspace c \<longleftrightarrow>
     (0x09 \<le> c \<and> c \<le> 0x0D) \<or> (0x1C \<le> c \<and> c \<le> 0x20) \<or> c = 0x85 \<or> c = 0xA0 \<or>
     c = 0x1680 \<or> (0x2000 \<le> c \<and> c \<le> 0x200A) \<or> c = 0x2028 \<or> c = 0x2029 \<or>
     c = 0x202F \<or> c = 0x205F \<or> c = 0x3000"

text \<open>\<open>s.strip()\<close>: leading and trailing white space removed.\<close>

definition strip :: "pystr \<Rightarrow> pystr" where
  "strip s = rev (dropWhile isspace (rev (dropWhile isspace s)))"

text \<open>
  \<open>s.replace(old, new)\<close>: every non-overlapping occurrence of \<open>old\<close>, found from the
  left, is replaced by \<open>new\<close>; an empty \<open>old\<close> matches before every character and at
  the end.
\<close>

function str_replace :: "pystr \<Rightarrow> pystr \<Rightarrow> pystr \<Rightarrow> pystr" where
  "str_replace old new s =
     (if old = [] then new @ concat (map (\<lambda>c. c # new) s)
      else if s = [] then []
      else if take (length old) s = old then new @ str_replace old new (drop (length old) s)
      else hd s # str_replace old new (tl s))"
  by pat_completeness auto
termination
  by (relation "measure (\<lambda>(old, new, s). length s)") auto

declare str_replace.simps [simp del]

text \<open>
  The interpreter's table of decimal digits (\<open>unicodedata.decimal\<close>, the characters of
  category Nd with their values) differs between Unicode versions, so it is a parameter
  \<open>dv\<close> of everything that reads digits: the regular expression class \<open>\d\<close> and
  \<open>float\<close> both consult it. \<open>unicode_decimals\<close> states what every version of the
  table satisfies: on ASCII the digits are \<open>0\<close> to \<open>9\<close>, digit values are below ten,
  and no white-space character is a digit.
\<close>

type_synonym decimals = "pychar \<Rightarrow> nat option"

definition ascii_decimals :: decimals where
  "ascii_decimals c = (if 0x30 \<le> c \<and> c \<le> 0x39 then Some (c - 0x30) else None)"

definition unicode_decimals :: "decimals \<Rightarrow> bool" where
  "unicode_decimals dv \<longleftrightarrow>
     (\<forall>c. c < 0x80 \<longrightarrow> dv c = ascii_decimals c) \<and>
     (\<forall>c d. dv c = Some d \<longrightarrow> d < 10) \<and>
     (\<forall>c. isspace c \<longrightarrow> dv c = None)"

definition isdecimal :: "decimals \<Rightarrow> pychar \<Rightarrow> bool" where
  "isdecimal dv c \<longleftrightarrow> dv c \<noteq> None"

section \<open>Regular expressions\<close>

text \<open>
  The source searches with \<open>re.search(r'(\d+\.?\d*)', cleaned)\<close>. The pattern is a
  sequence of single-character atoms, each under a greedy quantifier. \<open>rmatch\<close> is the
  backtracking matcher anchored at the start of the string: a quantified atom first takes
  as many characters as it can and gives them back one at a time until the rest of the
  pattern matches; the result is the length of the match. \<open>re_search\<close> tries the start
  positions from left to right and returns the text of the first match (group 1 of the
  source's pattern is the whole match).
\<close>

datatype atom = Digit | Lit pychar
datatype quant = Opt | Star | Plus
type_synonym regex = "(atom \<times> quant) list"

fun atom_ok :: "decimals \<Rightarrow> atom \<Rightarrow> pychar \<Rightarrow> bool" where
  "atom_ok dv Digit c = isdecimal dv c"
| "atom_ok dv (Lit a) c = (c = a)"

fun first_some :: "(nat \<Rightarrow> nat option) \<Rightarrow> nat list \<Rightarrow> nat option" where
  "first_some f [] = None"
| "first_some f (k # ks) = (case f k of Some n \<Rightarrow> Some n | None \<Rightarrow> first_some f ks)"

primrec rmatch :: "decimals \<Rightarrow> regex \<Rightarrow> pystr \<Rightarrow> nat option" where
  "rmatch dv [] s = Some 0"
| "rmatch dv (aq # r) s =
     (let run = length (takeWhile (atom_ok dv (fst aq)) s);
          lo = (case snd aq of Plus \<Rightarrow> 1 | _ \<Rightarrow> 0);
          hi = (case snd aq of Opt \<Rightarrow> min 1 run | _ \<Rightarrow> run)
      in first_some (\<lambda>k. map_option (\<lambda>n. k + n) (rmatch dv r (drop k s))) (rev [lo..<Suc hi]))"

fun re_search :: "decimals \<Rightarrow> regex \<Rightarrow> pystr \<Rightarrow> pystr option" where
  "re_search dv re [] = (case rmatch dv re [] of Some n \<Rightarrow> Some [] | None \<Rightarrow> None)"
| "re_search dv re (c # cs) =
     (case rmatch dv re (c # cs) of Some n \<Rightarrow> Some (take n (c # cs))
      | None \<Rightarrow> re_search dv re cs)"

definition number_re :: regex where
  "number_re = [(Digit, Plus), (Lit dot, Opt), (Digit, Star)]"

text \<open>
  What the matcher finds for \<open>number_re\<close> at the start of a string, computed without
  backtracking (shown equal to \<open>rmatch\<close> below): the longest run of digits, then a
  point if one follows, then the longest run of digits after it.
\<close>

definition greedy_token :: "decimals \<Rightarrow> pystr \<Rightarrow> pystr option" where
  "greedy_token dv s =
     (let ds = takeWhile (isdecimal dv) s; r = dropWhile (isdecimal dv) s
      in if ds = [] then None
         else Some (ds @ (case r of [] \<Rightarrow> [] | c # r' \<Rightarrow>
                            if c = dot then dot # takeWhile (isdecimal dv) r' else [])))"

section \<open>Floating-point values and \<open>float\<close>\<close>

text \<open>
  A Python float is a binary64 value. \<open>Finite q\<close> stands for the binary64 value that
  the rational \<open>q\<close> rounds to (\<open>round64\<close> below): \<open>float\<close> returns the number
  that the literal denotes, and every arithmetic operation first takes its operands to
  the binary64 values they stand for. Infinities and not-a-number are values of their
  own; the sign of zero is not modelled.
\<close>

datatype pyfloat = Finite rat | PosInf | NegInf | NaN

datatype error =
  EOFError | ValueError | ZeroDivisionError | OverflowError | TimeoutException
| WebDriverException | StaleElementReferenceException

text \<open>
  \<open>float(s)\<close> on a string, after the grammar of the language reference:
  white space around the literal is dropped, then
  \<^verbatim>\<open>
  floatvalue  ::= [sign] (floatnumber | "inf" | "infinity" | "nan")
  floatnumber ::= number [exponent]
  number      ::= [digitpart] "." digitpart | digitpart ["."]
  exponent    ::= ("e" | "E") [sign] digitpart
  digitpart   ::= digit (["_"] digit)*
  \<close>
  with \<open>inf\<close>, \<open>infinity\<close> and \<open>nan\<close> in any letter case. Any other string raises
  \<open>ValueError\<close>.
\<close>

fun digitpart :: "decimals \<Rightarrow> pystr \<Rightarrow> nat list option" where
  "digitpart dv [] = None"
| "digitpart dv [c] = (case dv c of Some d \<Rightarrow> Some [d] | None \<Rightarrow> None)"
| "digitpart dv (c # c' # cs) =
     (case dv c of None \<Rightarrow> None
      | Some d \<Rightarrow>
          (case (if c' = underscore then digitpart dv cs else digitpart dv (c' # cs)) of
             None \<Rightarrow> None
           | Some ds \<Rightarrow> Some (d # ds)))"

definition decimal_value :: "nat list \<Rightarrow> nat" where
  "decimal_value ds = foldl (\<lambda>a d. 10 * a + d) 0 ds"

definition fraction_value :: "nat list \<Rightarrow> rat" where
  "fraction_value fs = of_nat (decimal_value fs) / 10 ^ length fs"

definition number :: "decimals \<Rightarrow> pystr \<Rightarrow> rat option" where
  "number dv m =
     (let ip = takeWhile (\<lambda>c. c \<noteq> dot) m; r = dropWhile (\<lambda>c. c \<noteq> dot) m
      in if r = [] \<or> tl r = [] then
           map_option (\<lambda>ds. of_nat (decimal_value ds)) (digitpart dv ip)
         else
           (case digitpart dv (tl r) of
              None \<Rightarrow> None
            | Some fs \<Rightarrow>
                if ip = [] then Some (fraction_value fs)
                else map_option (\<lambda>ds. of_nat (decimal_value ds) + fraction_value fs)
                       (digitpart dv ip)))"

definition exponent :: "decimals \<Rightarrow> pystr \<Rightarrow> int option" where
  "exponent dv e =
     (case e of
        [] \<Rightarrow> None
      | c # r \<Rightarrow>
          if c = minus_sign then map_option (\<lambda>ds. - int (decimal_value ds)) (digitpart dv r)
          else if c = plus_sign then map_option (\<lambda>ds. int (decimal_value ds)) (digitpart dv r)
          else map_option (\<lambda>ds. int (decimal_value ds)) (digitpart dv e))"

definition floatnumber :: "decimals \<Rightarrow> pystr \<Rightarrow> rat option" where
  "floatnumber dv u =
     (let m = takeWhile (\<lambda>c. c \<noteq> 0x65 \<and> c \<noteq> 0x45) u;
          ex = dropWhile (\<lambda>c. c \<noteq> 0x65 \<and> c \<noteq> 0x45) u
      in case number dv m of
           None \<Rightarrow> None
         | Some q \<Rightarrow>
             if ex = [] then Some q
             else (case exponent dv (tl ex) of
                     None \<Rightarrow> None
                   | Some k \<Rightarrow> Some (if 0 \<le> k then q * 10 ^ nat k else q / 10 ^ nat (- k))))"

definition to_lower :: "pychar \<Rightarrow> pychar" where
  "to_lower c = (if 0x41 \<le> c \<and> c \<le> 0x5A then c + 0x20 else c)"

definition py_float :: "decimals \<Rightarrow> pystr \<Rightarrow> error + pyfloat" where
  "py_float dv s =
     (let t = strip s;
          neg = (t \<noteq> [] \<and> hd t = minus_sign);
          u = (if t \<noteq> [] \<and> (hd t = minus_sign \<or> hd t = plus_sign) then tl t else t);
          l = map to_lower u
      in if l = py ''inf'' \<or> l = py ''infinity'' then Inr (if neg then NegInf else PosInf)
         else if l = py ''nan'' then Inr NaN
         else (case floatnumber dv u of
                 None \<Rightarrow> Inl ValueError
               | Some q \<Rightarrow> Inr (Finite (if neg then - q else q))))"

section \<open>The price parser\<close>

text \<open>
  \<open>clean_price\<close> (source lines 192 to 222). The handler \<open>except ValueError\<close> catches
  that error class only, so any other error of \<open>float\<close> would leave the function.
\<close>

definition clean_price :: "decimals \<Rightarrow> pystr \<Rightarrow> error + pyfloat option" where
  "clean_price dv price_string =
     (if price_string = [] then Inr None
      else
        let cleaned = strip (str_replace [pound] [] price_string)
        in case re_search dv number_re cleaned of
             Some group1 \<Rightarrow>
               (case py_float dv group1 of
                  Inr v \<Rightarrow> Inr (Some v)
                | Inl ValueError \<Rightarrow> Inr None
                | Inl e \<Rightarrow> Inl e)
           | None \<Rightarrow> Inr None)"

subsection \<open>The parser as the specification words it\<close>

text \<open>
  The specification's algorithm, written from its words and compared with the source's
  below: remove every \<open>\<pounds>\<close>, trim, fail on an empty remainder, otherwise take the
  first maximal substring made of one or more digits, optionally followed by a decimal
  point and zero or more digits, and convert it; a failed conversion fails too.
  \<open>number_token\<close> is the shape of the substring, \<open>longest_token\<close> the longest one
  that starts the string, \<open>first_token\<close> the one at the leftmost position that has
  one.
\<close>

definition number_token :: "decimals \<Rightarrow> pystr \<Rightarrow> bool" where
  "number_token dv t \<longleftrightarrow>
     list_ex (\<lambda>k. list_all (isdecimal dv) (take k t) \<and>
                  (drop k t = [] \<or>
                   (hd (drop k t) = dot \<and> list_all (isdecimal dv) (tl (drop k t)))))
       [1..<Suc (length t)]"

definition longest_token :: "decimals \<Rightarrow> pystr \<Rightarrow> pystr option" where
  "longest_token dv s = find (number_token dv) (rev (prefixes s))"

fun first_token :: "decimals \<Rightarrow> pystr \<Rightarrow> pystr option" where
  "first_token dv [] = None"
| "first_token dv (c # cs) =
     (case longest_token dv (c # cs) of Some t \<Rightarrow> Some t | None \<Rightarrow> first_token dv cs)"

definition parsePrice :: "decimals \<Rightarrow> pystr \<Rightarrow> error + pyfloat option" where
  "parsePrice dv fragment =
     (let s = strip (filter (\<lambda>c. c \<noteq> pound) fragment)
      in if s = [] then Inr None
         else (case first_token dv s of
                 None \<Rightarrow> Inr None
               | Some t \<Rightarrow> (case py_float dv t of Inr v \<Rightarrow> Inr (Some v) | Inl e \<Rightarrow> Inr None)))"

section \<open>Binary64 arithmetic\<close>

text \<open>
  Rounding to binary64 (IEEE 754, round to nearest, ties to even). A finite binary64
  value is \<open>m * 2 ^ e\<close> with \<open>\<bar>m\<bar> < 2 ^ 53\<close> and \<open>- 1074 \<le> e \<le> 971\<close>.
  \<open>find_exponent\<close> looks for the least such exponent under which the magnitude fits
  in 53 bits, starting at \<open>- 1074\<close>; the magnitude is rounded to a multiple of that
  power of two; a magnitude that does not fit, or that rounds up to \<open>2 ^ 1024\<close>,
  overflows to infinity.
\<close>

definition round_half_even :: "rat \<Rightarrow> int" where
  "round_half_even x =
     (let f = \<lfloor>x\<rfloor>; d = x - of_int f
      in if d < 1 / 2 then f else if 1 / 2 < d then f + 1 else if even f then f else f + 1)"

fun find_exponent :: "nat \<Rightarrow> int \<Rightarrow> rat \<Rightarrow> int option" where
  "find_exponent 0 e q = None"
| "find_exponent (Suc n) e q =
     (if q < 2 powi (53 + e) then Some e else find_exponent n (e + 1) q)"

definition round64 :: "rat \<Rightarrow> pyfloat" where
  "round64 q =
     (case find_exponent 2046 (- 1074) \<bar>q\<bar> of
        None \<Rightarrow> (if q < 0 then NegInf else PosInf)
      | Some e \<Rightarrow>
          (let v = of_int (round_half_even (\<bar>q\<bar> / 2 powi e)) * 2 powi e
           in if 2 ^ 1024 \<le> v then (if q < 0 then NegInf else PosInf)
              else Finite (if q < 0 then - v else v)))"

definition as_binary64 :: "pyfloat \<Rightarrow> pyfloat" where
  "as_binary64 x = (case x of Finite q \<Rightarrow> round64 q | _ \<Rightarrow> x)"

text \<open>The rationals that are binary64 values.\<close>

definition representable :: "rat \<Rightarrow> bool" where
  "representable q \<longleftrightarrow>
     (\<exists>m e. q = of_int m * 2 powi e \<and> \<bar>m\<bar> < 2 ^ 53 \<and> - 1074 \<le> e \<and> e \<le> 971)"

text \<open>
  A list of rationals whose items and partial sums, taken from the left, are all
  binary64 values: summing it rounds nowhere.
\<close>

definition exactly_summable :: "rat list \<Rightarrow> bool" where
  "exactly_summable qs \<longleftrightarrow>
     (\<forall>q\<in>set qs. representable q) \<and> (\<forall>k\<le>length qs. representable (sum_list (take k qs)))"

text \<open>
  The operations on binary64 values: the exact result, rounded; the IEEE 754 rules on
  the special values.
\<close>

fun ieee_add :: "pyfloat \<Rightarrow> pyfloat \<Rightarrow> pyfloat" where
  "ieee_add (Finite a) (Finite b) = round64 (a + b)"
| "ieee_add NaN y = NaN"
| "ieee_add x NaN = NaN"
| "ieee_add PosInf NegInf = NaN"
| "ieee_add NegInf PosInf = NaN"
| "ieee_add PosInf y = PosInf"
| "ieee_add NegInf y = NegInf"
| "ieee_add (Finite a) y = y"

fun ieee_div :: "pyfloat \<Rightarrow> pyfloat \<Rightarrow> pyfloat" where
  "ieee_div (Finite a) (Finite b) = round64 (a / b)"
| "ieee_div NaN y = NaN"
| "ieee_div x NaN = NaN"
| "ieee_div (Finite a) y = Finite 0"
| "ieee_div PosInf (Finite b) = (if 0 < b then PosInf else NegInf)"
| "ieee_div NegInf (Finite b) = (if 0 < b then NegInf else PosInf)"
| "ieee_div x y = NaN"

fun float_neg :: "pyfloat \<Rightarrow> pyfloat" where
  "float_neg (Finite a) = Finite (- a)"
| "float_neg PosInf = NegInf"
| "float_neg NegInf = PosInf"
| "float_neg NaN = NaN"

fun ieee_abs_ge :: "pyfloat \<Rightarrow> pyfloat \<Rightarrow> bool" where
  "ieee_abs_ge (Finite a) (Finite b) = (\<bar>b\<bar> \<le> \<bar>a\<bar>)"
| "ieee_abs_ge NaN y = False"
| "ieee_abs_ge x NaN = False"
| "ieee_abs_ge (Finite a) y = False"
| "ieee_abs_ge x y = True"

definition float_add :: "pyfloat \<Rightarrow> pyfloat \<Rightarrow> pyfloat" where
  "float_add x y = ieee_add (as_binary64 x) (as_binary64 y)"

definition float_sub :: "pyfloat \<Rightarrow> pyfloat \<Rightarrow> pyfloat" where
  "float_sub x y = float_add x (float_neg y)"

definition float_abs_ge :: "pyfloat \<Rightarrow> pyfloat \<Rightarrow> bool" where
  "float_abs_ge x y = ieee_abs_ge (as_binary64 x) (as_binary64 y)"

definition is_finite :: "pyfloat \<Rightarrow> bool" where
  "is_finite x = (case as_binary64 x of Finite q \<Rightarrow> True | _ \<Rightarrow> False)"

text \<open>
  \<open>x / y\<close> on floats raises on a zero divisor. \<open>x / n\<close> with an integer \<open>n\<close> first
  converts \<open>n\<close> to a float, which raises when \<open>n\<close> is too large for one.
\<close>

definition float_truediv :: "pyfloat \<Rightarrow> pyfloat \<Rightarrow> error + pyfloat" where
  "float_truediv x y =
     (if as_binary64 y = Finite 0 then Inl ZeroDivisionError
      else Inr (ieee_div (as_binary64 x) (as_binary64 y)))"

definition int_to_float :: "nat \<Rightarrow> error + pyfloat" where
  "int_to_float n =
     (case round64 (of_nat n) of Finite q \<Rightarrow> Inr (Finite q) | _ \<Rightarrow> Inl OverflowError)"

definition float_div_len :: "pyfloat \<Rightarrow> nat \<Rightarrow> error + pyfloat" where
  "float_div_len x n =
     (case int_to_float n of Inl e \<Rightarrow> Inl e | Inr d \<Rightarrow> float_truediv x d)"

section \<open>The aggregator\<close>

text \<open>
  \<open>calculate_average_price\<close> (source lines 226 to 239) is \<open>sum(prices) / len(prices)\<close>
  behind an emptiness check. \<open>sum\<close> starts at the integer \<open>0\<close> and adds the items from
  the left, each addition rounded (\<open>py_sum\<close>). CPython 3.12 and later sum floats with
  Neumaier's compensation instead: the first item is added to the start value as before,
  each further item updates the running total \<open>f_result\<close> and a correction \<open>c\<close>, and
  the correction is added at the end when it is finite and not zero
  (\<open>py_sum_compensated\<close>). The source runs on either, so both are modelled:
  \<open>calculate_average_price_compensated\<close> is the same function under the later
  interpreters. The run below is written with the first; nothing proved about the run
  depends on the value of the average.
\<close>

definition py_sum :: "pyfloat list \<Rightarrow> pyfloat" where
  "py_sum xs = foldl float_add (Finite 0) xs"

fun neumaier :: "pyfloat \<Rightarrow> pyfloat \<Rightarrow> pyfloat list \<Rightarrow> pyfloat" where
  "neumaier f_result c [] =
     (if as_binary64 c \<noteq> Finite 0 \<and> is_finite c then float_add f_result c else f_result)"
| "neumaier f_result c (x # xs) =
     (let t = float_add f_result x;
          c' = (if float_abs_ge f_result x
                then float_add c (float_add (float_sub f_result t) x)
                else float_add c (float_add (float_sub x t) f_result))
      in neumaier t c' xs)"

definition py_sum_compensated :: "pyfloat list \<Rightarrow> pyfloat" where
  "py_sum_compensated xs =
     (case xs of [] \<Rightarrow> Finite 0 | x # rest \<Rightarrow> neumaier (float_add (Finite 0) x) (Finite 0) rest)"

definition calculate_average_price :: "pyfloat list \<Rightarrow> error + pyfloat option" where
  "calculate_average_price prices =
     (if prices = [] then Inr None
      else (case float_div_len (py_sum prices) (length prices) of
              Inl e \<Rightarrow> Inl e
            | Inr avg \<Rightarrow> Inr (Some avg)))"

definition calculate_average_price_compensated :: "pyfloat list \<Rightarrow> error + pyfloat option" where
  "calculate_average_price_compensated prices =
     (if prices = [] then Inr None
      else (case float_div_len (py_sum_compensated prices) (length prices) of
              Inl e \<Rightarrow> Inl e
            | Inr avg \<Rightarrow> Inr (Some avg)))"

section \<open>The query builder\<close>

text \<open>\<open>construct_search_url\<close> (source lines 56 to 69).\<close>

definition construct_search_url :: "pystr \<Rightarrow> pystr \<Rightarrow> pystr \<Rightarrow> pystr" where
  "construct_search_url brand description condition =
     (let search_terms = strip (brand @ [space] @ description @ [space] @ condition);
          search_text = str_replace [space] [plus_sign] search_terms;
          base_url = py ''https://www.vinted.co.uk/catalog''
      in base_url @ py ''?search_text='' @ search_text)"

section \<open>Effects: console, standard input and the browser\<close>

text \<open>
  What the program prints is abstracted to one \<open>message\<close> per \<open>print\<close> statement of
  the source; what it does to the outside world is recorded as a list of \<open>event\<close>s, in
  order. An effectful function returns its result together with the events it caused.
\<close>

datatype By = CSS_SELECTOR | XPATH | TAG_NAME
type_synonym locator = "By \<times> pystr"
type_synonym element = nat

datatype message =
  Banner | Title | SelectCondition | MenuLine nat | InvalidInput
| LoadingPage pystr | Calculating | Loading | CheckConnection | TryAgainLater error
| Extracted nat
| NoPricesFound | NoResultsMatched | CheckSpelling | CouldNotRetrieve
| ResultsHeader | SearchTerms pystr pystr | ConditionFilter pystr
| AveragePrice pyfloat | Suggestion pyfloat | CouldNotCalculate
| ErrorOccurred error | Thanks | SeeYou

datatype prompt = AskBrand | AskDescription | AskChoice

datatype event =
  Print message | Input prompt | Launch "pystr list" | Get pystr | WaitUntil locator
| Sleep nat | FindElements locator | ReadText element | Traceback | Quit

text \<open>
  The browser and the page it shows are outside the program. A \<open>world\<close> fixes how they
  answer: whether the driver starts, whether navigation fails, whether an element located
  by a locator appears within the wait bound, which elements a locator finds, and what
  text an element has. Each call may raise, as the Selenium calls of the source may. The
  page is a snapshot: the same query gets the same answer throughout one run.
\<close>

record world =
  launch :: "error option"
  navigate :: "pystr \<Rightarrow> error option"
  wait_until :: "locator \<Rightarrow> error option"
  find_elements :: "locator \<Rightarrow> error + element list"
  text_of :: "element \<Rightarrow> error + pystr"
  quit_driver :: "error option"

section \<open>Collecting the query\<close>

text \<open>
  \<open>get_user_input\<close> (source lines 18 to 53). Standard input is the list of lines still
  to be read; \<open>input\<close> takes the first one and raises \<open>EOFError\<close> when none is left.
  The function returns the remaining lines with its result. \<open>choose_condition\<close> is the
  validation loop of lines 46 to 52.
\<close>

definition condition_menu :: "(pystr \<times> pystr) list" where
  "condition_menu =
     [(py ''1'', py ''New With Tags''),
      (py ''2'', py ''New Without Tags''),
      (py ''3'', py ''Very Good''),
      (py ''4'', py ''Good''),
      (py ''5'', py ''Satisfactory'')]"

fun choose_condition :: "pystr list \<Rightarrow> (error + pystr \<times> pystr list) \<times> event list" where
  "choose_condition [] = (Inl EOFError, [Input AskChoice])"
| "choose_condition (line # rest) =
     (let choice = strip line
      in case map_of condition_menu choice of
           Some condition \<Rightarrow> (Inr (condition, rest), [Input AskChoice])
         | None \<Rightarrow>
             (let (r, ev) = choose_condition rest
              in (r, Input AskChoice # Print InvalidInput # ev)))"

definition menu_lines :: "event list" where
  "menu_lines = Print SelectCondition # map (\<lambda>n. Print (MenuLine n)) [1, 2, 3, 4, 5]"

definition get_user_input ::
  "pystr list \<Rightarrow> (error + (pystr \<times> pystr \<times> pystr) \<times> pystr list) \<times> event list" where
  "get_user_input stdin =
     (let header = [Print Banner, Print Title, Print Banner]
      in case stdin of
           [] \<Rightarrow> (Inl EOFError, header @ [Input AskBrand])
         | line1 # stdin1 \<Rightarrow>
             (let brand = strip line1
              in case stdin1 of
                   [] \<Rightarrow> (Inl EOFError, header @ [Input AskBrand, Input AskDescription])
                 | line2 # stdin2 \<Rightarrow>
                     (let description = strip line2;
                          (r, ev) = choose_condition stdin2;
                          evs = header @ [Input AskBrand, Input AskDescription] @ menu_lines @ ev
                      in case r of
                           Inl e \<Rightarrow> (Inl e, evs)
                         | Inr (condition, rest) \<Rightarrow>
                             (Inr ((brand, description, condition), rest), evs))))"



definition trimmed :: "pystr \<Rightarrow> bool" where
  "trimmed s \<longleftrightarrow> s = [] \<or> (\<not> isspace (hd s) \<and> \<not> isspace (last s))"

section \<open>The browser driver\<close>

text \<open>\<open>setup_driver\<close> (source lines 72 to 96): the Chrome options, then the launch.\<close>

definition chrome_arguments :: "bool \<Rightarrow> pystr list" where
  "chrome_arguments headless =
     (if headless then [py ''--headless''] else []) @
     [py ''--no-sandbox'', py ''--disable-dev-shm-usage'',
      py ''--disable-blink-features=AutomationControlled'',
      py ''user-agent=Mozilla/5.0 (Macintosh; Intel Mac OS X 10_15_7) AppleWebKit/537.36 (KHTML, like Gecko) Chrome/120.0.0.0 Safari/537.36'']"

definition setup_driver :: "world \<Rightarrow> bool \<Rightarrow> (error + unit) \<times> event list" where
  "setup_driver w headless =
     (case launch w of
        Some e \<Rightarrow> (Inl e, [Launch (chrome_arguments headless)])
      | None \<Rightarrow> (Inr (), [Launch (chrome_arguments headless)]))"

section \<open>The price extractor\<close>

text \<open>
  \<open>scrape_vinted_prices\<close> (source lines 99 to 188), in the order of the source:
  navigation (line 111, before the \<open>try\<close>), the wait for content (lines 116 to 149),
  the structural patterns (lines 152 to 173), the fallback on the text of the elements
  (lines 175 to 184).
\<close>

definition xpath_pound :: pystr where
  "xpath_pound = py ''//*[contains(text(), '' @ [0x27, pound, 0x27] @ py '')]''"

definition price_selectors :: "locator list" where
  "price_selectors =
     [(CSS_SELECTOR, py ''[class*='price']''),
      (CSS_SELECTOR, py ''[data-testid*='price']''),
      (XPATH, xpath_pound),
      (CSS_SELECTOR, py ''.new-item-box__price'')]"

definition price_patterns :: "pystr list" where
  "price_patterns =
     [py ''[class*='price']'',
      py ''[data-testid*='price']'',
      py ''.new-item-box__price'',
      py ''.feed-grid__item [class*='price']'',
      py ''[class*='Price']'',
      py ''[class*='item-price']'']"

text \<open>
  Lines 129 to 136: each selector is waited for in turn; a wait that raises is skipped
  (\<open>except: continue\<close>), the first that succeeds ends the loop.
\<close>

fun wait_for_price :: "world \<Rightarrow> locator list \<Rightarrow> bool \<times> event list" where
  "wait_for_price w [] = (False, [])"
| "wait_for_price w (l # ls) =
     (case wait_until w l of
        None \<Rightarrow> (True, [WaitUntil l])
      | Some e \<Rightarrow> (let (found, ev) = wait_for_price w ls in (found, WaitUntil l # ev)))"

text \<open>
  Lines 116 to 149, the body of the \<open>try\<close>: the result is the exception that reaches
  the handler \<open>except Exception\<close>, if any.
\<close>

definition wait_for_content :: "world \<Rightarrow> error option \<times> event list" where
  "wait_for_content w =
     (let (price_element_found, ev) = wait_for_price w price_selectors
      in if price_element_found then (None, Print Calculating # ev @ [Sleep 2])
         else
           (case wait_until w (TAG_NAME, py ''body'') of
              Some e \<Rightarrow>
                (Some e, Print Calculating # ev @ [Print Loading, WaitUntil (TAG_NAME, py ''body'')])
            | None \<Rightarrow>
                (None, Print Calculating # ev @
                   [Print Loading, WaitUntil (TAG_NAME, py ''body''), Sleep 3, Sleep 2])))"

text \<open>
  Lines 167 to 170: the texts of the elements of one pattern are appended to \<open>prices\<close>
  one by one. Reading a text may raise; what was appended before stays in \<open>prices\<close>.
\<close>

fun collect_texts ::
  "world \<Rightarrow> element list \<Rightarrow> pystr list \<Rightarrow> (error option \<times> pystr list) \<times> event list" where
  "collect_texts w [] prices = ((None, prices), [])"
| "collect_texts w (el # els) prices =
     (case text_of w el of
        Inl e \<Rightarrow> ((Some e, prices), [ReadText el])
      | Inr t \<Rightarrow>
          (let price_text = strip t;
               (r, ev) = collect_texts w els
                           (if price_text \<noteq> [] then prices @ [price_text] else prices)
           in (r, ReadText el # ev)))"

text \<open>
  Lines 163 to 173: the loop over the patterns. A pattern that finds elements and whose
  texts are all read ends the loop (\<open>break\<close>); a pattern that finds nothing, or during
  which a call raises (\<open>except: continue\<close>), passes to the next one.
\<close>

fun try_patterns :: "world \<Rightarrow> pystr list \<Rightarrow> pystr list \<Rightarrow> pystr list \<times> event list" where
  "try_patterns w [] prices = (prices, [])"
| "try_patterns w (pattern # rest) prices =
     (case find_elements w (CSS_SELECTOR, pattern) of
        Inl e \<Rightarrow>
          (let (ps, ev) = try_patterns w rest prices
           in (ps, FindElements (CSS_SELECTOR, pattern) # ev))
      | Inr price_elements \<Rightarrow>
          if price_elements \<noteq> [] then
            (case collect_texts w price_elements prices of
               ((None, prices'), ev) \<Rightarrow> (prices', FindElements (CSS_SELECTOR, pattern) # ev)
             | ((Some e, prices'), ev) \<Rightarrow>
                 (let (ps, ev') = try_patterns w rest prices'
                  in (ps, FindElements (CSS_SELECTOR, pattern) # ev @ ev')))
          else
            (let (ps, ev) = try_patterns w rest prices
             in (ps, FindElements (CSS_SELECTOR, pattern) # ev)))"

text \<open>Lines 179 to 182: the texts that contain \<open>\<pounds>\<close>.\<close>

fun collect_pound_texts ::
  "world \<Rightarrow> element list \<Rightarrow> pystr list \<Rightarrow> (error option \<times> pystr list) \<times> event list" where
  "collect_pound_texts w [] prices = ((None, prices), [])"
| "collect_pound_texts w (el # els) prices =
     (case text_of w el of
        Inl e \<Rightarrow> ((Some e, prices), [ReadText el])
      | Inr t \<Rightarrow>
          (let text = strip t;
               (r, ev) = collect_pound_texts w els
                           (if text \<noteq> [] \<and> pound \<in> set text then prices @ [text] else prices)
           in (r, ReadText el # ev)))"

text \<open>Lines 177 to 184: the fallback, with its own handler.\<close>

definition content_rule :: "world \<Rightarrow> pystr list \<Rightarrow> pystr list \<times> event list" where
  "content_rule w prices =
     (case find_elements w (XPATH, xpath_pound) of
        Inl e \<Rightarrow> (prices, [FindElements (XPATH, xpath_pound), Print (TryAgainLater e)])
      | Inr all_text \<Rightarrow>
          (case collect_pound_texts w all_text prices of
             ((None, prices'), ev) \<Rightarrow> (prices', FindElements (XPATH, xpath_pound) # ev)
           | ((Some e, prices'), ev) \<Rightarrow>
               (prices', FindElements (XPATH, xpath_pound) # ev @ [Print (TryAgainLater e)])))"

text \<open>Lines 151 to 188: extraction from the loaded page.\<close>

definition extract_prices :: "world \<Rightarrow> pystr list \<times> event list" where
  "extract_prices w =
     (let (prices, ev1) = try_patterns w price_patterns [];
          (prices', ev2) = (if prices = [] then content_rule w prices else (prices, []))
      in (prices', ev1 @ ev2 @ [Print (Extracted (length prices'))]))"

definition scrape_vinted_prices :: "world \<Rightarrow> pystr \<Rightarrow> (error + pystr list) \<times> event list" where
  "scrape_vinted_prices w url =
     (case navigate w url of
        Some e \<Rightarrow> (Inl e, [Print (LoadingPage url), Get url])
      | None \<Rightarrow>
          (case wait_for_content w of
             (Some e, ev) \<Rightarrow>
               (Inr [], [Print (LoadingPage url), Get url] @ ev @ [Print CheckConnection])
           | (None, ev) \<Rightarrow>
               (let (prices, ev') = extract_prices w
                in (Inr prices, [Print (LoadingPage url), Get url] @ ev @ ev'))))"

section \<open>The run\<close>

text \<open>
  \<open>main\<close> (source lines 242 to 308). \<open>clean_all\<close> is the loop of lines 267 to 271,
  \<open>run_scrape\<close> the body of the \<open>try\<close> (lines 255 to 296) once the driver is there:
  its result is the exception that leaves the body, if any. \<open>main\<close> returns the
  exception that leaves the program, if any, and the events of the run.
\<close>

fun clean_all :: "decimals \<Rightarrow> pystr list \<Rightarrow> error + pyfloat list" where
  "clean_all dv [] = Inr []"
| "clean_all dv (price_str # rest) =
     (case clean_price dv price_str of
        Inl e \<Rightarrow> Inl e
      | Inr price_float \<Rightarrow>
          (case clean_all dv rest of
             Inl e \<Rightarrow> Inl e
           | Inr cleaned \<Rightarrow>
               Inr (case price_float of Some v \<Rightarrow> v # cleaned | None \<Rightarrow> cleaned)))"

definition report :: "pystr \<Rightarrow> pystr \<Rightarrow> pystr \<Rightarrow> pyfloat option \<Rightarrow> event list" where
  "report brand description condition avg_price =
     [Print Banner, Print ResultsHeader, Print Banner, Print (SearchTerms brand description),
      Print (ConditionFilter condition)] @
     (case avg_price of
        Some avg \<Rightarrow> [Print (AveragePrice avg), Print Banner, Print (Suggestion avg), Print Banner]
      | None \<Rightarrow> [Print CouldNotCalculate])"

definition run_scrape ::
  "decimals \<Rightarrow> world \<Rightarrow> pystr \<Rightarrow> pystr \<Rightarrow> pystr \<Rightarrow> pystr \<Rightarrow> error option \<times> event list" where
  "run_scrape dv w url brand description condition =
     (case scrape_vinted_prices w url of
        (Inl e, ev) \<Rightarrow> (Some e, ev)
      | (Inr price_strings, ev) \<Rightarrow>
          if price_strings = [] then
            (None, ev @ [Print NoPricesFound, Print NoResultsMatched, Print CheckSpelling])
          else
            (case clean_all dv price_strings of
               Inl e \<Rightarrow> (Some e, ev)
             | Inr cleaned_prices \<Rightarrow>
                 if cleaned_prices = [] then (None, ev @ [Print CouldNotRetrieve])
                 else
                   (case calculate_average_price cleaned_prices of
                      Inl e \<Rightarrow> (Some e, ev)
                    | Inr avg_price \<Rightarrow>
                        (None, ev @ report brand description condition avg_price))))"

definition main :: "decimals \<Rightarrow> world \<Rightarrow> pystr list \<Rightarrow> error option \<times> event list" where
  "main dv w stdin =
     (case get_user_input stdin of
        (Inl e, ev) \<Rightarrow> (Some e, ev)
      | (Inr ((brand, description, condition), rest), ev) \<Rightarrow>
          (let url = construct_search_url brand description condition
           in case setup_driver w True of
                (Inl e, ev1) \<Rightarrow> (None, ev @ ev1 @ [Print (ErrorOccurred e), Traceback])
              | (Inr driver, ev1) \<Rightarrow>
                  (let (raised, ev2) = run_scrape dv w url brand description condition;
                       handler = (case raised of
                                    Some e \<Rightarrow> [Print (ErrorOccurred e), Traceback]
                                  | None \<Rightarrow> [])
                   in (quit_driver w,
                       ev @ ev1 @ ev2 @ handler @ [Print Thanks, Print SeeYou, Quit]))))"

section \<open>Observations on a run\<close>

text \<open>
  \<open>driver_acquired\<close>: the assignment of line 255 took place, that is, the input was
  read and the launch did not raise. \<open>content_rule_attempted\<close>: the extraction ran the
  query of line 178. \<open>pattern_matches\<close>: a structural pattern finds one or more
  elements; \<open>structural_match\<close>: some pattern of the list does.
\<close>

definition driver_acquired :: "world \<Rightarrow> pystr list \<Rightarrow> bool" where
  "driver_acquired w stdin \<longleftrightarrow>
     (case fst (get_user_input stdin) of Inl e \<Rightarrow> False | Inr q \<Rightarrow> launch w = None)"

definition content_rule_attempted :: "world \<Rightarrow> bool" where
  "content_rule_attempted w \<longleftrightarrow>
     FindElements (XPATH, xpath_pound) \<in> set (snd (extract_prices w))"

definition pattern_matches :: "world \<Rightarrow> pystr \<Rightarrow> bool" where
  "pattern_matches w pattern =
     (case find_elements w (CSS_SELECTOR, pattern) of
        Inl e \<Rightarrow> False
      | Inr price_elements \<Rightarrow> price_elements \<noteq> [])"

definition structural_match :: "world \<Rightarrow> bool" where
  "structural_match w = list_ex (pattern_matches w) price_patterns"

section \<open>Some worlds\<close>

text \<open>
  \<open>offline_world\<close>: the page cannot be reached, so the navigation raises.
  \<open>hidden_price_world\<close>: the first pattern finds one element whose visible text is
  empty. \<open>second_rule_world\<close>: the first pattern finds nothing, the second finds two
  elements, one with a price and one with blank text, and the third would find another.
  \<open>stale_world\<close>: the first pattern finds two elements and reading the text of the
  second raises; the second pattern finds one element.
\<close>

definition offline_world :: world where
  "offline_world =
     \<lparr>launch = None, navigate = (\<lambda>url. Some WebDriverException),
      wait_until = (\<lambda>l. Some TimeoutException), find_elements = (\<lambda>l. Inr []),
      text_of = (\<lambda>el. Inr []), quit_driver = None\<rparr>"

definition hidden_price_world :: world where
  "hidden_price_world =
     \<lparr>launch = None, navigate = (\<lambda>url. None), wait_until = (\<lambda>l. None),
      find_elements = (\<lambda>l. if l = (CSS_SELECTOR, py ''[class*='price']'') then Inr [0] else Inr []),
      text_of = (\<lambda>el. Inr []), quit_driver = None\<rparr>"

definition second_rule_world :: world where
  "second_rule_world =
     \<lparr>launch = None, navigate = (\<lambda>url. None), wait_until = (\<lambda>l. None),
      find_elements =
        (\<lambda>l. if l = (CSS_SELECTOR, py ''[data-testid*='price']'') then Inr [1, 2]
              else if l = (CSS_SELECTOR, py ''.new-item-box__price'') then Inr [3]
              else Inr []),
      text_of = (\<lambda>el. if el = 1 then Inr (pound # py ''9.99'') else if el = 2 then Inr (py ''  '')
                       else Inr (pound # py ''7'')),
      quit_driver = None\<rparr>"

definition stale_world :: world where
  "stale_world =
     \<lparr>launch = None, navigate = (\<lambda>url. None), wait_until = (\<lambda>l. None),
      find_elements =
        (\<lambda>l. if l = (CSS_SELECTOR, py ''[class*='price']'') then Inr [1, 2]
              else if l = (CSS_SELECTOR, py ''[data-testid*='price']'') then Inr [3]
              else Inr []),
      text_of = (\<lambda>el. if el = 1 then Inr (pound # py ''5'')
                       else if el = 2 then Inl StaleElementReferenceException
                       else Inr (pound # py ''7'')),
      quit_driver = None\<rparr>"

section \<open>Properties of the price parser\<close>

lemma first_some_top:
  "lo \<le> hi \<Longrightarrow> f hi = Some n \<Longrightarrow> first_some f (rev [lo..<Suc hi]) = Some n"
  by simp

lemma first_some_none: "hi < lo \<Longrightarrow> first_some f (rev [lo..<Suc hi]) = None"
  by simp

lemma atom_ok_Digit: "atom_ok dv Digit = isdecimal dv"
  by (rule ext) simp

lemma atom_ok_Lit: "atom_ok dv (Lit a) = (\<lambda>c. c = a)"
  by (rule ext) simp

lemma rmatch_digits: "rmatch dv [(Digit, Star)] s = Some (length (takeWhile (isdecimal dv) s))"
  by (simp add: Let_def atom_ok_Digit first_some_top del: upt_Suc)

lemma rmatch_fraction:
  "rmatch dv [(Lit dot, Opt), (Digit, Star)] s =
     Some (case s of [] \<Rightarrow> 0
           | c # r \<Rightarrow> if c = dot then Suc (length (takeWhile (isdecimal dv) r))
                       else length (takeWhile (isdecimal dv) s))"
proof -
  let ?run = "length (takeWhile (\<lambda>c. c = dot) s)"
  let ?f = "\<lambda>k. map_option (\<lambda>n. k + n) (rmatch dv [(Digit, Star)] (drop k s))"
  have r: "rmatch dv [(Lit dot, Opt), (Digit, Star)] s = first_some ?f (rev [0..<Suc (min 1 ?run)])"
    by (simp add: Let_def atom_ok_Lit del: upt_Suc rmatch.simps(2)) (simp add: Let_def atom_ok_Lit del: upt_Suc)
  have "first_some ?f (rev [0..<Suc (min 1 ?run)]) =
          Some (min 1 ?run + length (takeWhile (isdecimal dv) (drop (min 1 ?run) s)))"
    by (rule first_some_top) (simp_all add: rmatch_digits del: rmatch.simps)
  with r show ?thesis
    by (cases s) (simp_all del: rmatch.simps upt_Suc)
qed


lemma rmatch_number_re:
  "(case rmatch dv number_re s of Some n \<Rightarrow> Some (take n s) | None \<Rightarrow> None) = greedy_token dv s"
proof -
  let ?run = "length (takeWhile (isdecimal dv) s)"
  let ?rest = "[(Lit dot, Opt), (Digit, Star)]"
  let ?f = "\<lambda>k. map_option (\<lambda>n. k + n) (rmatch dv ?rest (drop k s))"
  have r: "rmatch dv number_re s = first_some ?f (rev [1..<Suc ?run])"
    unfolding number_re_def by (simp add: Let_def atom_ok_Digit del: upt_Suc rmatch.simps(2)) (simp add: Let_def atom_ok_Digit del: upt_Suc)
  show ?thesis
  proof (cases "?run = 0")
    case True
    then have "rmatch dv number_re s = None"
      using r by (simp add: first_some_none del: upt_Suc rmatch.simps)
    with True show ?thesis by (simp add: greedy_token_def)
  next
    case False
    then have ne: "takeWhile (isdecimal dv) s \<noteq> []" by simp
    obtain m where m: "rmatch dv ?rest (drop ?run s) = Some m"
      and mv: "m = (case dropWhile (isdecimal dv) s of [] \<Rightarrow> 0
                    | c # r \<Rightarrow> if c = dot then Suc (length (takeWhile (isdecimal dv) r))
                       else length (takeWhile (isdecimal dv) (dropWhile (isdecimal dv) s)))"
      by (simp add: rmatch_fraction dropWhile_eq_drop [symmetric] del: rmatch.simps)
    from False have "first_some ?f (rev [1..<Suc ?run]) = Some (?run + m)"
      by (intro first_some_top) (simp_all add: m Suc_le_eq del: rmatch.simps)
    with r have rm: "rmatch dv number_re s = Some (?run + m)" by simp
    have tk: "take (?run + m) s = takeWhile (isdecimal dv) s @ take m (dropWhile (isdecimal dv) s)"
      by (simp add: take_add takeWhile_eq_take [symmetric] dropWhile_eq_drop [symmetric])
    define r where "r = dropWhile (isdecimal dv) s"
    have hd: "r \<noteq> [] \<Longrightarrow> \<not> isdecimal dv (hd r)"
      unfolding r_def by (rule hd_dropWhile)
    have "take m r =
            (case r of [] \<Rightarrow> [] | c # r' \<Rightarrow>
                            if c = dot then dot # takeWhile (isdecimal dv) r' else [])"
    proof (cases r)
      case Nil
      then show ?thesis by simp
    next
      case (Cons c r')
      with hd have "\<not> isdecimal dv c" by simp
      then show ?thesis using Cons mv [folded r_def] by (simp add: takeWhile_eq_take [symmetric])
    qed
    then have "take m (dropWhile (isdecimal dv) s) =
            (case dropWhile (isdecimal dv) s of [] \<Rightarrow> [] | c # r' \<Rightarrow>
                            if c = dot then dot # takeWhile (isdecimal dv) r' else [])"
      by (simp add: r_def)
    with rm tk ne show ?thesis by (simp add: greedy_token_def Let_def)
  qed
qed

lemma number_token_iff:
  "number_token dv t \<longleftrightarrow>
     (\<exists>ds fs. t = ds @ fs \<and> ds \<noteq> [] \<and> (\<forall>c\<in>set ds. isdecimal dv c) \<and>
        (fs = [] \<or> (\<exists>gs. fs = dot # gs \<and> (\<forall>c\<in>set gs. isdecimal dv c))))"
  (is "?L \<longleftrightarrow> ?R")
proof
  assume ?L
  then obtain k where k: "1 \<le> k" "k \<le> length t"
    and d: "list_all (isdecimal dv) (take k t)"
    and f: "drop k t = [] \<or> (hd (drop k t) = dot \<and> list_all (isdecimal dv) (tl (drop k t)))"
    unfolding number_token_def list_ex_iff by (auto simp del: upt_Suc)
  have "t = take k t @ drop k t" by simp
  moreover have "take k t \<noteq> []" using k by auto
  moreover have "\<forall>c\<in>set (take k t). isdecimal dv c" using d by (simp add: list_all_iff)
  moreover have "drop k t = [] \<or> (\<exists>gs. drop k t = dot # gs \<and> (\<forall>c\<in>set gs. isdecimal dv c))"
  proof (cases "drop k t")
    case Nil
    then show ?thesis by simp
  next
    case (Cons c gs)
    with f show ?thesis by (simp add: list_all_iff)
  qed
  ultimately show ?R by blast
next
  assume ?R
  then obtain ds fs where t: "t = ds @ fs" and ne: "ds \<noteq> []"
    and d: "\<forall>c\<in>set ds. isdecimal dv c"
    and f: "fs = [] \<or> (\<exists>gs. fs = dot # gs \<and> (\<forall>c\<in>set gs. isdecimal dv c))"
    by blast
  have "length ds \<in> set [1..<Suc (length t)]"
    using ne t by (cases ds) (simp_all del: upt_Suc)
  moreover have "list_all (isdecimal dv) (take (length ds) t) \<and>
      (drop (length ds) t = [] \<or>
       (hd (drop (length ds) t) = dot \<and> list_all (isdecimal dv) (tl (drop (length ds) t))))"
    using t d f by (auto simp: list_all_iff)
  ultimately show ?L
    unfolding number_token_def list_ex_iff by blast
qed

lemma find_rev_prefixes_None:
  "(\<And>t. prefix t s \<Longrightarrow> \<not> P t) \<Longrightarrow> find P (rev (prefixes s)) = None"
  by (simp add: find_None_iff)

lemma find_rev_prefixes_Some:
  "prefix g s \<Longrightarrow> P g \<Longrightarrow> (\<And>t. prefix t s \<Longrightarrow> P t \<Longrightarrow> length t \<le> length g) \<Longrightarrow>
     find P (rev (prefixes s)) = Some g"
proof (induction s rule: rev_induct)
  case Nil
  then show ?case by simp
next
  case (snoc x xs)
  show ?case
  proof (cases "P (xs @ [x])")
    case True
    then have "length (xs @ [x]) \<le> length g" using snoc.prems(3) by blast
    with snoc.prems(1) have "g = xs @ [x]"
      by (metis prefix_length_le le_antisym prefix_length_prefix prefix_order.eq_iff prefix_order.order_refl)
    with True show ?thesis by simp
  next
    case False
    with snoc.prems have "prefix g xs" by (auto simp: prefix_snoc)
    then have "find P (rev (prefixes xs)) = Some g"
      using snoc.prems by (intro snoc.IH) (auto simp: prefix_snoc)
    with False show ?thesis by simp
  qed
qed

lemma unicode_decimals_ascii:
  "unicode_decimals dv \<Longrightarrow> c < 0x80 \<Longrightarrow> dv c = ascii_decimals c"
  by (simp add: unicode_decimals_def)

lemma dot_not_decimal: "unicode_decimals dv \<Longrightarrow> \<not> isdecimal dv dot"
  by (simp add: isdecimal_def unicode_decimals_ascii dot_def ascii_decimals_def)

lemma greedy_token_is_token:
  assumes "greedy_token dv s = Some g"
  shows "number_token dv g" and "prefix g s"
proof -
  let ?ds = "takeWhile (isdecimal dv) s"
  define r where "r = dropWhile (isdecimal dv) s"
  define tl' where "tl' = (case r of [] \<Rightarrow> [] | c # r' \<Rightarrow>
                            if c = dot then dot # takeWhile (isdecimal dv) r' else [])"
  from assms have ne: "?ds \<noteq> []" and g: "g = ?ds @ tl'"
    by (auto simp: greedy_token_def Let_def r_def tl'_def split: if_splits)
  have d: "\<forall>c\<in>set ?ds. isdecimal dv c" by (auto dest: set_takeWhileD)
  have f: "tl' = [] \<or> (\<exists>gs. tl' = dot # gs \<and> (\<forall>c\<in>set gs. isdecimal dv c))"
    unfolding tl'_def by (cases r) (auto dest: set_takeWhileD)
  from g ne d f show "number_token dv g"
    unfolding number_token_iff by blast
  have "prefix tl' r"
    unfolding tl'_def by (cases r) (auto simp: takeWhile_is_prefix)
  then have "prefix (?ds @ tl') (?ds @ r)" by simp
  then show "prefix g s" by (simp add: g r_def)
qed

lemma token_prefix_bounded:
  assumes u: "unicode_decimals dv" and g: "greedy_token dv s = Some g"
    and p: "prefix t s" and t: "number_token dv t"
  shows "length t \<le> length g"
proof -
  from t obtain ds fs where tt: "t = ds @ fs" and ne: "ds \<noteq> []"
    and d: "\<forall>c\<in>set ds. isdecimal dv c"
    and f: "fs = [] \<or> (\<exists>gs. fs = dot # gs \<and> (\<forall>c\<in>set gs. isdecimal dv c))"
    unfolding number_token_iff by blast
  from p tt obtain rest where s: "s = ds @ fs @ rest" by (auto simp: prefix_def)
  from f show ?thesis
  proof
    assume "fs = []"
    with s d have "takeWhile (isdecimal dv) s = ds @ takeWhile (isdecimal dv) rest" by simp
    with g tt \<open>fs = []\<close> show ?thesis
      by (auto simp: greedy_token_def Let_def split: if_splits)
  next
    assume "\<exists>gs. fs = dot # gs \<and> (\<forall>c\<in>set gs. isdecimal dv c)"
    then obtain gs where fs: "fs = dot # gs" and gd: "\<forall>c\<in>set gs. isdecimal dv c" by blast
    have nd: "\<not> isdecimal dv dot" using u by (rule dot_not_decimal)
    have tw: "takeWhile (isdecimal dv) s = ds" using s d fs nd by simp
    have dw: "dropWhile (isdecimal dv) s = dot # gs @ rest" using s d fs nd by simp
    have "takeWhile (isdecimal dv) (gs @ rest) = gs @ takeWhile (isdecimal dv) rest"
      using gd by simp
    with g tw dw ne have "g = ds @ dot # gs @ takeWhile (isdecimal dv) rest"
      by (simp add: greedy_token_def Let_def)
    with tt fs show ?thesis by simp
  qed
qed

lemma no_token_prefix:
  assumes "greedy_token dv s = None" and "prefix t s"
  shows "\<not> number_token dv t"
proof
  assume "number_token dv t"
  then obtain ds fs where tt: "t = ds @ fs" and ne: "ds \<noteq> []"
    and d: "\<forall>c\<in>set ds. isdecimal dv c"
    unfolding number_token_iff by blast
  from assms(2) tt obtain rest where s: "s = ds @ fs @ rest" by (auto simp: prefix_def)
  with d have "takeWhile (isdecimal dv) s = ds @ takeWhile (isdecimal dv) (fs @ rest)" by simp
  with ne assms(1) show False by (simp add: greedy_token_def Let_def)
qed

lemma longest_token_greedy:
  assumes "unicode_decimals dv"
  shows "longest_token dv s = greedy_token dv s"
proof (cases "greedy_token dv s")
  case None
  then show ?thesis
    unfolding longest_token_def by (simp add: find_rev_prefixes_None no_token_prefix)
next
  case (Some g)
  have "find (number_token dv) (rev (prefixes s)) = Some g"
    using greedy_token_is_token [OF Some] token_prefix_bounded [OF assms Some]
    by (intro find_rev_prefixes_Some) auto
  with Some show ?thesis by (simp add: longest_token_def)
qed

lemma greedy_token_Nil: "greedy_token dv [] = None"
  by (simp add: greedy_token_def)

lemma re_search_first_token:
  assumes "unicode_decimals dv"
  shows "re_search dv number_re s = first_token dv s"
proof (induction s)
  case Nil
  have "(case rmatch dv number_re [] of Some n \<Rightarrow> Some (take n ([]::pystr)) | None \<Rightarrow> None) = None"
    using rmatch_number_re [where dv = dv and s = "[]"] by (simp only: greedy_token_Nil)
  then show ?case by (simp split: option.splits)
next
  case (Cons c cs)
  have "(case rmatch dv number_re (c # cs) of Some n \<Rightarrow> Some (take n (c # cs)) | None \<Rightarrow> None)
          = longest_token dv (c # cs)"
    using rmatch_number_re [where dv = dv and s = "c # cs"] by (simp only: longest_token_greedy [OF assms])
  then show ?case using Cons by (auto split: option.splits)
qed

lemma strip_id: "s \<noteq> [] \<Longrightarrow> \<not> isspace (hd s) \<Longrightarrow> \<not> isspace (last s) \<Longrightarrow> strip s = s"
proof -
  assume ne: "s \<noteq> []" and h: "\<not> isspace (hd s)" and l: "\<not> isspace (last s)"
  have a: "dropWhile isspace s = s" using h by (simp add: dropWhile_eq_self_iff)
  have "\<not> isspace (hd (rev s))" using l ne by (simp add: hd_rev)
  then have b: "dropWhile isspace (rev s) = rev s" by (simp add: dropWhile_eq_self_iff)
  show ?thesis unfolding strip_def a b by simp
qed

lemma strip_Nil: "strip [] = []"
  by (simp add: strip_def)

lemma last_dropWhile: "dropWhile P xs \<noteq> [] \<Longrightarrow> last (dropWhile P xs) = last xs"
  by (metis last_appendR takeWhile_dropWhile_id)

lemma strip_trimmed:
  "strip s = [] \<or> (\<not> isspace (hd (strip s)) \<and> \<not> isspace (last (strip s)))"
proof (cases "strip s = []")
  case True
  then show ?thesis by simp
next
  case False
  define t where "t = dropWhile isspace s"
  define u where "u = dropWhile isspace (rev t)"
  have s: "strip s = rev u" by (simp add: strip_def t_def u_def)
  with False have u: "u \<noteq> []" by simp
  then have "\<not> isspace (hd u)" unfolding u_def by (rule hd_dropWhile)
  then have l: "\<not> isspace (last (strip s))" using u by (simp add: s last_rev)
  from u have rt: "rev t \<noteq> []" by (auto simp: u_def)
  then have t: "t \<noteq> []" by simp
  have "last u = last (rev t)" using u unfolding u_def by (rule last_dropWhile)
  then have "hd (strip s) = hd t" using u t by (simp add: s hd_rev last_rev)
  moreover have "\<not> isspace (hd t)" using t unfolding t_def by (rule hd_dropWhile)
  ultimately show ?thesis using l by simp
qed

lemma strip_is_trimmed: "trimmed (strip s)"
  using strip_trimmed [of s] by (simp add: trimmed_def)

lemma decimal_ascii:
  assumes "unicode_decimals dv" and "isdecimal dv c" and "c < 0x80"
  shows "0x30 \<le> c \<and> c \<le> 0x39"
proof -
  from assms have "ascii_decimals c \<noteq> None"
    by (simp add: isdecimal_def unicode_decimals_def)
  then show ?thesis by (simp add: ascii_decimals_def split: if_splits)
qed

lemma decimal_not_special:
  assumes "unicode_decimals dv" and "isdecimal dv c"
  shows "c \<noteq> dot" "c \<noteq> underscore" "c \<noteq> minus_sign" "c \<noteq> plus_sign" "c \<noteq> 0x65" "c \<noteq> 0x45"
    "c \<noteq> 105" "c \<noteq> 110" "to_lower c = c" "\<not> isspace c"
  using decimal_ascii [OF assms] assms
  by (auto simp: dot_def underscore_def minus_sign_def plus_sign_def to_lower_def
      unicode_decimals_def isdecimal_def)

lemma digitpart_digits:
  "unicode_decimals dv \<Longrightarrow> ds \<noteq> [] \<Longrightarrow> \<forall>c\<in>set ds. isdecimal dv c \<Longrightarrow>
     digitpart dv ds = Some (map (\<lambda>c. the (dv c)) ds)"
proof (induction dv ds rule: digitpart.induct)
  case (1 dv)
  then show ?case by simp
next
  case (2 dv c)
  then show ?case by (auto simp: isdecimal_def)
next
  case (3 dv c c' cs)
  from "3.prems" have "isdecimal dv c'" by simp
  with "3.prems"(1) have nu: "c' \<noteq> underscore" by (rule decimal_not_special)
  obtain d where d: "dv c = Some d" using "3.prems" by (auto simp: isdecimal_def)
  have "digitpart dv (c' # cs) = Some (map (\<lambda>c. the (dv c)) (c' # cs))"
    using "3.prems" nu d by (intro "3.IH"(2)) auto
  with nu d show ?case by simp
qed

lemma number_digits:
  assumes u: "unicode_decimals dv" and ne: "ds \<noteq> []" and d: "\<forall>c\<in>set ds. isdecimal dv c"
  shows "\<exists>q. 0 \<le> q \<and> number dv ds = Some q"
proof -
  have "\<forall>c\<in>set ds. c \<noteq> dot" using decimal_not_special(1) [OF u] d by blast
  then have tw: "takeWhile (\<lambda>c. c \<noteq> dot) ds = ds"
    and dw: "dropWhile (\<lambda>c. c \<noteq> dot) ds = []" by simp_all
  show ?thesis
    unfolding number_def tw dw by (simp add: digitpart_digits [OF u ne d])
qed

lemma number_digits_dot:
  assumes u: "unicode_decimals dv" and ne: "ds \<noteq> []" and d: "\<forall>c\<in>set ds. isdecimal dv c"
    and g: "\<forall>c\<in>set gs. isdecimal dv c"
  shows "\<exists>q. 0 \<le> q \<and> number dv (ds @ dot # gs) = Some q"
proof -
  have nd: "\<forall>c\<in>set ds. c \<noteq> dot" using decimal_not_special(1) [OF u] d by blast
  then have tw: "takeWhile (\<lambda>c. c \<noteq> dot) (ds @ dot # gs) = ds"
    and dw: "dropWhile (\<lambda>c. c \<noteq> dot) (ds @ dot # gs) = dot # gs" by simp_all
  show ?thesis
  proof (cases "gs = []")
    case True
    then show ?thesis
      unfolding number_def tw dw by (simp add: digitpart_digits [OF u ne d])
  next
    case False
    have "0 \<le> fraction_value fs" for fs by (simp add: fraction_value_def)
    then show ?thesis
      unfolding number_def tw dw using False ne
      by (simp add: digitpart_digits [OF u ne d] digitpart_digits [OF u False g])
  qed
qed

lemma py_float_token:
  assumes u: "unicode_decimals dv" and t: "number_token dv t"
  shows "\<exists>q. 0 \<le> q \<and> py_float dv t = Inr (Finite q)"
proof -
  from t obtain ds fs where tt: "t = ds @ fs" and ne: "ds \<noteq> []"
    and d: "\<forall>c\<in>set ds. isdecimal dv c"
    and f: "fs = [] \<or> (\<exists>gs. fs = dot # gs \<and> (\<forall>c\<in>set gs. isdecimal dv c))"
    unfolding number_token_iff by blast
  have hd: "isdecimal dv (hd t)" using tt ne d by (cases ds) auto
  have t_ne: "t \<noteq> []" using tt ne by simp
  have chars: "\<forall>c\<in>set t. isdecimal dv c \<or> c = dot" using tt d f by auto
  have lastc: "isdecimal dv (last t) \<or> last t = dot" using chars t_ne last_in_set by blast
  have "\<not> isspace dot" by (simp add: isspace_def dot_def)
  with lastc have "\<not> isspace (last t)" using decimal_not_special(10) [OF u] by auto
  then have st: "strip t = t"
    using t_ne hd decimal_not_special(10) [OF u] by (intro strip_id) auto
  have sign: "hd t \<noteq> minus_sign" "hd t \<noteq> plus_sign"
    using decimal_not_special [OF u hd] by auto
  have "hd (map to_lower t) = hd t"
    using t_ne decimal_not_special(9) [OF u hd] by (simp add: hd_map)
  then have "hd (map to_lower t) \<noteq> 105" "hd (map to_lower t) \<noteq> 110"
    using decimal_not_special [OF u hd] by auto
  moreover have "hd (py ''inf'') = 105" "hd (py ''infinity'') = 105" "hd (py ''nan'') = 110"
    by (simp_all add: py_def)
  ultimately have special: "map to_lower t \<noteq> py ''inf''" "map to_lower t \<noteq> py ''infinity''"
    "map to_lower t \<noteq> py ''nan''"
    by metis+
  have "dot \<noteq> 0x65" "dot \<noteq> 0x45" by (simp_all add: dot_def)
  then have "c \<noteq> 0x65 \<and> c \<noteq> 0x45" if "c \<in> set t" for c
  proof (cases "isdecimal dv c")
    case True
    then show ?thesis using decimal_not_special(5,6) [OF u True] by simp
  next
    case False
    with chars that have "c = dot" by blast
    then show ?thesis by (simp add: dot_def)
  qed
  then have "\<forall>c\<in>set t. c \<noteq> 0x65 \<and> c \<noteq> 0x45" by simp
  then have tw: "takeWhile (\<lambda>c. c \<noteq> 0x65 \<and> c \<noteq> 0x45) t = t"
    and dw: "dropWhile (\<lambda>c. c \<noteq> 0x65 \<and> c \<noteq> 0x45) t = []" by simp_all
  obtain q where q: "0 \<le> q" "number dv t = Some q"
    using f tt number_digits [OF u ne d] number_digits_dot [OF u ne d] by auto
  have "floatnumber dv t = Some q"
    unfolding floatnumber_def tw dw using q by simp
  then have "py_float dv t = Inr (Finite q)"
    unfolding py_float_def st Let_def using sign special t_ne by simp
  with q show ?thesis by blast
qed

lemma py_float_error: "py_float dv s = Inl e \<Longrightarrow> e = ValueError"
  by (auto simp: py_float_def Let_def split: if_splits option.splits)

lemma str_replace_filter: "str_replace [a] [] s = filter (\<lambda>c. c \<noteq> a) s"
proof (induction s)
  case Nil
  show ?case by (subst str_replace.simps) simp
next
  case (Cons x xs)
  show ?case by (subst str_replace.simps) (simp add: Cons)
qed

lemma str_replace_map: "str_replace [a] [b] s = map (\<lambda>c. if c = a then b else c) s"
proof (induction s)
  case Nil
  show ?case by (subst str_replace.simps) simp
next
  case (Cons x xs)
  show ?case by (subst str_replace.simps) (simp add: Cons)
qed

lemma re_search_number_Nil: "re_search dv number_re [] = None"
  using rmatch_number_re [where dv = dv and s = "[]"]
  by (simp add: greedy_token_Nil split: option.splits)

lemma re_search_number_Cons:
  "re_search dv number_re (c # cs) =
     (case greedy_token dv (c # cs) of Some t \<Rightarrow> Some t | None \<Rightarrow> re_search dv number_re cs)"
  using rmatch_number_re [where dv = dv and s = "c # cs"]
  by (auto split: option.splits)

lemma re_search_token:
  "re_search dv number_re s = Some t \<Longrightarrow> number_token dv t"
proof (induction s)
  case Nil
  then show ?case by (simp add: re_search_number_Nil del: re_search.simps)
next
  case (Cons c cs)
  then show ?case
    by (auto simp: re_search_number_Cons greedy_token_is_token(1) simp del: re_search.simps split: option.splits)
qed

lemma unicode_decimals_ascii_table: "unicode_decimals ascii_decimals"
  unfolding unicode_decimals_def
proof (intro conjI allI impI)
  fix c d assume "ascii_decimals c = Some d"
  then show "d < 10" by (auto simp: ascii_decimals_def split: if_splits)
next
  fix c assume "isspace c"
  then show "ascii_decimals c = None" by (auto simp: isspace_def ascii_decimals_def)
qed simp

lemma clean_price_cleaned:
  "clean_price dv s =
     (case re_search dv number_re (strip (filter (\<lambda>c. c \<noteq> pound) s)) of
        None \<Rightarrow> Inr None
      | Some tok \<Rightarrow> (case py_float dv tok of Inr v \<Rightarrow> Inr (Some v) | Inl e \<Rightarrow> Inr None))"
proof (cases "s = []")
  case True
  then show ?thesis
    by (simp add: clean_price_def strip_Nil re_search_number_Nil del: re_search.simps)
next
  case False
  have "(case py_float dv tok of Inr v \<Rightarrow> Inr (Some v) | Inl ValueError \<Rightarrow> Inr None
         | Inl e \<Rightarrow> Inl e) =
        (case py_float dv tok of Inr v \<Rightarrow> Inr (Some v) | Inl e \<Rightarrow> Inr None)" for tok
    by (auto split: sum.splits error.splits dest: py_float_error)
  with False show ?thesis
    by (simp add: clean_price_def str_replace_filter Let_def del: re_search.simps
        split: option.splits)
qed

lemma clean_price_refines:
  assumes "unicode_decimals dv"
  shows "clean_price dv s = parsePrice dv s"
proof (cases "strip (filter (\<lambda>c. c \<noteq> pound) s) = []")
  case True
  then show ?thesis
    by (simp add: clean_price_cleaned parsePrice_def re_search_number_Nil del: re_search.simps)
next
  case False
  then show ?thesis
    by (simp add: clean_price_cleaned parsePrice_def re_search_first_token [OF assms]
        del: re_search.simps)
qed

lemmas eval_search =
  py_def re_search_number_Cons re_search_number_Nil greedy_token_def isdecimal_def
  ascii_decimals_def dot_def

lemmas eval_float =
  py_def py_float_def strip_def isspace_def minus_sign_def plus_sign_def to_lower_def
  floatnumber_def number_def dot_def underscore_def ascii_decimals_def decimal_value_def
  fraction_value_def

lemmas eval_clean = py_def pound_def strip_def isspace_def

lemma clean_price_examples:
  assumes u: "unicode_decimals dv"
  shows "clean_price dv (pound # py ''12.50'') = Inr (Some (Finite (25 / 2)))"
    and "clean_price dv (pound # py '' 15.99'') = Inr (Some (Finite (1599 / 100)))"
    and "clean_price dv (py ''Price: '' @ pound # py ''20'') = Inr (Some (Finite 20))"
    and "clean_price dv [] = Inr None"
    and "clean_price dv (py ''no price here'') = Inr None"
    and "clean_price dv (pound # py ''1,200'') = Inr (Some (Finite 1))"
proof -
  note d = unicode_decimals_ascii [OF u]
  have c1: "strip (filter (\<lambda>c. c \<noteq> pound) (pound # py ''12.50'')) = py ''12.50''"
    by (simp add: eval_clean)
  have s1: "re_search dv number_re (py ''12.50'') = Some (py ''12.50'')"
    by (simp add: eval_search d del: re_search.simps)
  have f1: "py_float dv (py ''12.50'') = Inr (Finite (25 / 2))"
    by (simp add: eval_float d)
  show "clean_price dv (pound # py ''12.50'') = Inr (Some (Finite (25 / 2)))"
    unfolding clean_price_cleaned c1 s1 by (simp add: f1)
  have c2: "strip (filter (\<lambda>c. c \<noteq> pound) (pound # py '' 15.99'')) = py ''15.99''"
    by (simp add: eval_clean)
  have s2: "re_search dv number_re (py ''15.99'') = Some (py ''15.99'')"
    by (simp add: eval_search d del: re_search.simps)
  have f2: "py_float dv (py ''15.99'') = Inr (Finite (1599 / 100))"
    by (simp add: eval_float d)
  show "clean_price dv (pound # py '' 15.99'') = Inr (Some (Finite (1599 / 100)))"
    unfolding clean_price_cleaned c2 s2 by (simp add: f2)
  have c3: "strip (filter (\<lambda>c. c \<noteq> pound) (py ''Price: '' @ pound # py ''20'')) = py ''Price: 20''"
    by (simp add: eval_clean)
  have s3: "re_search dv number_re (py ''Price: 20'') = Some (py ''20'')"
    by (simp add: eval_search d del: re_search.simps)
  have f3: "py_float dv (py ''20'') = Inr (Finite 20)"
    by (simp add: eval_float d)
  show "clean_price dv (py ''Price: '' @ pound # py ''20'') = Inr (Some (Finite 20))"
    unfolding clean_price_cleaned c3 s3 by (simp add: f3)
  show "clean_price dv [] = Inr None"
    by (simp add: clean_price_def)
  have c5: "strip (filter (\<lambda>c. c \<noteq> pound) (py ''no price here'')) = py ''no price here''"
    by (simp add: eval_clean)
  have s5: "re_search dv number_re (py ''no price here'') = None"
    by (simp add: eval_search d del: re_search.simps)
  show "clean_price dv (py ''no price here'') = Inr None"
    unfolding clean_price_cleaned c5 s5 by simp
  have c6: "strip (filter (\<lambda>c. c \<noteq> pound) (pound # py ''1,200'')) = py ''1,200''"
    by (simp add: eval_clean)
  have s6: "re_search dv number_re (py ''1,200'') = Some (py ''1'')"
    by (simp add: eval_search d del: re_search.simps)
  have f6: "py_float dv (py ''1'') = Inr (Finite 1)"
    by (simp add: eval_float d)
  show "clean_price dv (pound # py ''1,200'') = Inr (Some (Finite 1))"
    unfolding clean_price_cleaned c6 s6 by (simp add: f6)
qed

text \<open>
  C1. \<open>clean_price\<close> computes what the specification's algorithm computes
  (\<open>parsePrice\<close>: remove every pound sign, trim, fail on an empty remainder, else
  convert the first maximal substring of one or more digits, optionally followed by a
  point and zero or more digits), and on the six inputs of the specification it returns
  12.50, 15.99, 20.0, no value, no value and 1.0.
\<close>

theorem clean_price_follows_specification:
  assumes "unicode_decimals dv"
  shows "clean_price dv fragment = parsePrice dv fragment \<and>
         clean_price dv (pound # py ''12.50'') = Inr (Some (Finite (25 / 2))) \<and>
         clean_price dv (pound # py '' 15.99'') = Inr (Some (Finite (1599 / 100))) \<and>
         clean_price dv (py ''Price: '' @ pound # py ''20'') = Inr (Some (Finite 20)) \<and>
         clean_price dv [] = Inr None \<and>
         clean_price dv (py ''no price here'') = Inr None \<and>
         clean_price dv (pound # py ''1,200'') = Inr (Some (Finite 1))"
  using clean_price_refines [OF assms] clean_price_examples [OF assms] by blast

theorem clean_price_follows_specification_witness:
  "unicode_decimals ascii_decimals \<and>
   parsePrice ascii_decimals (pound # py '' 15.99'') = Inr (Some (Finite (1599 / 100)))"
proof -
  have u: "unicode_decimals ascii_decimals" by (rule unicode_decimals_ascii_table)
  from clean_price_follows_specification [OF u, of "pound # py '' 15.99''"]
  have "parsePrice ascii_decimals (pound # py '' 15.99'') = Inr (Some (Finite (1599 / 100)))"
    by (elim conjE) (simp only:)
  with u show ?thesis by simp
qed

text \<open>
  C10. \<open>clean_price\<close> never raises: on every string it returns no value or a float
  that is not negative. The handler for \<open>ValueError\<close> is never entered, because
  \<open>float\<close> accepts every string that the pattern can match.
\<close>

theorem clean_price_total:
  assumes "unicode_decimals dv"
  shows "(\<exists>r. clean_price dv price_string = Inr r \<and>
              (r = None \<or> (\<exists>q. 0 \<le> q \<and> r = Some (Finite q)))) \<and>
         (\<forall>group1. re_search dv number_re cleaned = Some group1 \<longrightarrow>
              (\<exists>q. 0 \<le> q \<and> py_float dv group1 = Inr (Finite q)))"
proof
  show "\<forall>group1. re_search dv number_re cleaned = Some group1 \<longrightarrow>
          (\<exists>q. 0 \<le> q \<and> py_float dv group1 = Inr (Finite q))"
    using py_float_token [OF assms] re_search_token by blast
  show "\<exists>r. clean_price dv price_string = Inr r \<and>
              (r = None \<or> (\<exists>q. 0 \<le> q \<and> r = Some (Finite q)))"
  proof (cases "re_search dv number_re (strip (filter (\<lambda>c. c \<noteq> pound) price_string))")
    case None
    then show ?thesis by (simp add: clean_price_cleaned)
  next
    case (Some tok)
    then obtain q where "0 \<le> q" "py_float dv tok = Inr (Finite q)"
      using py_float_token [OF assms] re_search_token by blast
    with Some show ?thesis by (simp add: clean_price_cleaned)
  qed
qed

theorem clean_price_total_witness:
  "unicode_decimals ascii_decimals \<and>
   re_search ascii_decimals number_re (py ''1,200'') = Some (py ''1'') \<and>
   (\<exists>q. 0 \<le> q \<and> py_float ascii_decimals (py ''1'') = Inr (Finite q)) \<and>
   (\<exists>r. clean_price ascii_decimals (pound # py ''1,200'') = Inr r \<and>
        (r = None \<or> (\<exists>q. 0 \<le> q \<and> r = Some (Finite q))))"
proof -
  have u: "unicode_decimals ascii_decimals" by (rule unicode_decimals_ascii_table)
  have s: "re_search ascii_decimals number_re (py ''1,200'') = Some (py ''1'')"
    by (simp add: eval_search del: re_search.simps)
  from clean_price_total [OF u, of "pound # py ''1,200''" "py ''1,200''"] s u
  show ?thesis by simp
qed





section \<open>Properties of binary64 arithmetic and of the aggregator\<close>

lemma round_half_even_of_int: "round_half_even (of_int k) = k"
  by (simp add: round_half_even_def)

lemma find_exponent_Some:
  "q < 2 powi (53 + e) \<Longrightarrow> e0 \<le> e \<Longrightarrow> e < e0 + int n \<Longrightarrow>
     \<exists>e'. find_exponent n e0 q = Some e' \<and> e0 \<le> e' \<and> e' \<le> e"
proof (induction n arbitrary: e0)
  case 0
  then show ?case by simp
next
  case (Suc n)
  show ?case
  proof (cases "q < 2 powi (53 + e0)")
    case True
    with Suc.prems show ?thesis by simp
  next
    case False
    with Suc.prems(1) have "e0 \<noteq> e" by auto
    with Suc.prems have "e0 + 1 \<le> e" "e < (e0 + 1) + int n" by simp_all
    from Suc.IH [OF Suc.prems(1) this] obtain e' where
      "find_exponent n (e0 + 1) q = Some e'" "e0 + 1 \<le> e'" "e' \<le> e" by blast
    with False show ?thesis by simp
  qed
qed

lemma find_exponent_None:
  "(2::rat) ^ 1024 \<le> q \<Longrightarrow> e0 + int n \<le> 972 \<Longrightarrow> find_exponent n e0 q = None"
proof (induction n arbitrary: e0)
  case 0
  then show ?case by simp
next
  case (Suc n)
  have "(2::rat) powi (53 + e0) \<le> 2 powi 1024"
    using Suc.prems(2) by (intro power_int_increasing) simp_all
  also have "\<dots> = 2 ^ 1024" by simp
  finally have "\<not> q < 2 powi (53 + e0)" using Suc.prems(1) by simp
  moreover have "find_exponent n (e0 + 1) q = None"
    using Suc.prems by (intro Suc.IH) simp_all
  ultimately show ?case by simp
qed

lemma round64_overflow: "2 ^ 1024 \<le> q \<Longrightarrow> round64 q = PosInf"
proof -
  assume q: "2 ^ 1024 \<le> q"
  have "(0::rat) < 2 ^ 1024" by simp
  then have p: "0 < q" using q by (rule less_le_trans)
  then have "\<bar>q\<bar> = q" by simp
  moreover have "find_exponent 2046 (- 1074) q = None"
    using q by (rule find_exponent_None) simp
  ultimately show ?thesis using p by (simp add: round64_def)
qed

lemma round64_representable:
  assumes "representable q"
  shows "round64 q = Finite q"
proof -
  from assms obtain m e where q: "q = of_int m * 2 powi e"
    and m: "\<bar>m\<bar> < 2 ^ 53" and e: "- 1074 \<le> e" "e \<le> 971"
    unfolding representable_def by blast
  have pos: "(0::rat) < 2 powi k" for k by simp
  have a: "\<bar>q\<bar> = of_int \<bar>m\<bar> * 2 powi e"
    unfolding q by (simp add: abs_mult)
  have "(of_int \<bar>m\<bar> :: rat) < of_int (2 ^ 53)" using m by (simp only: of_int_less_iff)
  then have "(of_int \<bar>m\<bar> :: rat) < 2 ^ 53" by simp
  then have "of_int \<bar>m\<bar> * 2 powi e < (2 ^ 53 :: rat) * 2 powi e"
    using pos [of e] by (simp only: mult_less_cancel_right_pos)
  also have "(2 ^ 53 :: rat) * 2 powi e = 2 powi (53 + e)"
    by (simp add: power_int_add)
  finally have lt: "\<bar>q\<bar> < 2 powi (53 + e)" using a by simp
  have "e < - 1074 + int 2046" using e(2) by simp
  from find_exponent_Some [OF lt e(1) this] obtain e' where
    f: "find_exponent 2046 (- 1074) \<bar>q\<bar> = Some e'" and e': "- 1074 \<le> e'" "e' \<le> e"
    by blast
  have "(2::rat) powi e = 2 powi e' * 2 powi (e - e')"
    by (simp flip: power_int_add)
  also have "(2::rat) powi (e - e') = 2 ^ nat (e - e')"
    using e' by (simp add: power_int_nonneg_exp)
  finally have pe: "(2::rat) powi e = 2 powi e' * 2 ^ nat (e - e')" .
  have d: "\<bar>q\<bar> / 2 powi e' = of_int (\<bar>m\<bar> * 2 ^ nat (e - e'))"
    unfolding a pe by simp
  have v: "of_int (round_half_even (\<bar>q\<bar> / 2 powi e')) * 2 powi e' = \<bar>q\<bar>"
    unfolding d round_half_even_of_int unfolding a pe by simp
  have "(2::rat) powi (53 + e) \<le> 2 powi 1024"
    using e by (intro power_int_increasing) simp_all
  with lt have "\<bar>q\<bar> < 2 powi 1024" by simp
  then have n: "\<not> 2 ^ 1024 \<le> \<bar>q\<bar>" by simp
  show ?thesis
    unfolding round64_def f using n by (simp add: v Let_def)
qed

lemma representable_of_int: "\<bar>k\<bar> < 2 ^ 53 \<Longrightarrow> representable (of_int k)"
  unfolding representable_def by (intro exI [of _ k] exI [of _ 0]) simp

lemma representable_0: "representable 0"
  using representable_of_int [of 0] by simp

lemma representable_of_nat: "n < 2 ^ 53 \<Longrightarrow> representable (of_nat n)"
  using representable_of_int [of "int n"] by simp

lemma representable_minus: "representable q \<Longrightarrow> representable (- q)"
proof -
  assume "representable q"
  then obtain m e where "q = of_int m * 2 powi e" "\<bar>m\<bar> < 2 ^ 53" "- 1074 \<le> e" "e \<le> 971"
    unfolding representable_def by blast
  then have "- q = of_int (- m) * 2 powi e \<and> \<bar>- m\<bar> < 2 ^ 53 \<and> - 1074 \<le> e \<and> e \<le> 971"
    by simp
  then show ?thesis unfolding representable_def by blast
qed

lemma as_binary64_representable: "representable a \<Longrightarrow> as_binary64 (Finite a) = Finite a"
  by (simp add: as_binary64_def round64_representable)

lemma float_add_exact:
  "representable a \<Longrightarrow> representable b \<Longrightarrow> representable (a + b) \<Longrightarrow>
     float_add (Finite a) (Finite b) = Finite (a + b)"
  by (simp add: float_add_def as_binary64_representable round64_representable)

lemma float_sub_exact:
  "representable a \<Longrightarrow> representable b \<Longrightarrow> representable (a - b) \<Longrightarrow>
     float_sub (Finite a) (Finite b) = Finite (a - b)"
  using float_add_exact [of a "- b"] by (simp add: float_sub_def representable_minus)

lemma foldl_float_add_exact:
  "representable a \<Longrightarrow> \<forall>q\<in>set qs. representable q \<Longrightarrow>
   \<forall>k\<le>length qs. representable (a + sum_list (take k qs)) \<Longrightarrow>
     foldl float_add (Finite a) (map Finite qs) = Finite (a + sum_list qs)"
proof (induction qs arbitrary: a)
  case Nil
  then show ?case by simp
next
  case (Cons q qs)
  from Cons.prems(3) have "Suc 0 \<le> length (q # qs) \<longrightarrow>
      representable (a + sum_list (take (Suc 0) (q # qs)))"
    by (rule spec)
  then have r: "representable (a + q)" by simp
  have s: "float_add (Finite a) (Finite q) = Finite (a + q)"
    using Cons.prems(1,2) r by (intro float_add_exact) simp_all
  have "\<forall>k\<le>length qs. representable ((a + q) + sum_list (take k qs))"
  proof (intro allI impI)
    fix k assume "k \<le> length qs"
    then have "Suc k \<le> length (q # qs)" by simp
    moreover from Cons.prems(3) have "Suc k \<le> length (q # qs) \<longrightarrow>
        representable (a + sum_list (take (Suc k) (q # qs)))"
      by (rule spec)
    ultimately have "representable (a + sum_list (take (Suc k) (q # qs)))" by (rule rev_mp)
    then show "representable ((a + q) + sum_list (take k qs))" by (simp add: add.assoc)
  qed
  with Cons.prems(2) r have "foldl float_add (Finite (a + q)) (map Finite qs) =
      Finite ((a + q) + sum_list qs)"
    by (intro Cons.IH) simp_all
  with s show ?case by (simp add: add.assoc)
qed

lemma neumaier_exact:
  "representable a \<Longrightarrow> \<forall>q\<in>set qs. representable q \<Longrightarrow>
   \<forall>k\<le>length qs. representable (a + sum_list (take k qs)) \<Longrightarrow>
     neumaier (Finite a) (Finite 0) (map Finite qs) = Finite (a + sum_list qs)"
proof (induction qs arbitrary: a)
  case Nil
  then show ?case by (simp add: as_binary64_representable representable_0)
next
  case (Cons q qs)
  from Cons.prems(3) have "Suc 0 \<le> length (q # qs) \<longrightarrow>
      representable (a + sum_list (take (Suc 0) (q # qs)))"
    by (rule spec)
  then have r: "representable (a + q)" by simp
  from Cons.prems(2) have rq: "representable q" by simp
  have t: "float_add (Finite a) (Finite q) = Finite (a + q)"
    using Cons.prems(1) rq r by (rule float_add_exact)
  have "representable (a - (a + q))" using rq by (simp add: representable_minus)
  then have s1: "float_sub (Finite a) (Finite (a + q)) = Finite (- q)"
    using float_sub_exact [OF Cons.prems(1) r] by simp
  have "representable (q - (a + q))" using Cons.prems(1) by (simp add: representable_minus)
  then have s2: "float_sub (Finite q) (Finite (a + q)) = Finite (- a)"
    using float_sub_exact [OF rq r] by simp
  have c1: "float_add (Finite (- q)) (Finite q) = Finite 0"
    using float_add_exact [of "- q" q] rq by (simp add: representable_minus representable_0)
  have c2: "float_add (Finite (- a)) (Finite a) = Finite 0"
    using float_add_exact [of "- a" a] Cons.prems(1)
    by (simp add: representable_minus representable_0)
  have z: "float_add (Finite 0) (Finite 0) = Finite 0"
    using float_add_exact [of 0 0] by (simp add: representable_0)
  have "\<forall>k\<le>length qs. representable ((a + q) + sum_list (take k qs))"
  proof (intro allI impI)
    fix k assume "k \<le> length qs"
    then have "Suc k \<le> length (q # qs)" by simp
    moreover from Cons.prems(3) have "Suc k \<le> length (q # qs) \<longrightarrow>
        representable (a + sum_list (take (Suc k) (q # qs)))"
      by (rule spec)
    ultimately have "representable (a + sum_list (take (Suc k) (q # qs)))" by (rule rev_mp)
    then show "representable ((a + q) + sum_list (take k qs))" by (simp add: add.assoc)
  qed
  with Cons.prems(2) r have "neumaier (Finite (a + q)) (Finite 0) (map Finite qs) =
      Finite ((a + q) + sum_list qs)"
    by (intro Cons.IH) simp_all
  then show ?case by (simp add: t s1 s2 c1 c2 z Let_def add.assoc)
qed

lemma representable_top: "representable (2 ^ 1023)"
proof -
  have "(2::rat) ^ 1023 = 2 ^ 52 * 2 ^ 971" by (simp only: power_add [symmetric]) simp
  then have "(2::rat) ^ 1023 = of_int (2 ^ 52) * 2 powi 971" by simp
  moreover have "\<bar>2 ^ 52 :: int\<bar> < 2 ^ 53" by simp
  ultimately have "(2::rat) ^ 1023 = of_int (2 ^ 52) * 2 powi 971 \<and> \<bar>2 ^ 52 :: int\<bar> < 2 ^ 53 \<and>
      (- 1074 :: int) \<le> 971 \<and> (971 :: int) \<le> 971"
    by simp
  then show ?thesis unfolding representable_def by blast
qed

lemma int_to_float_small: "n < 2 ^ 53 \<Longrightarrow> int_to_float n = Inr (Finite (of_nat n))"
  by (simp add: int_to_float_def round64_representable representable_of_nat)

lemma float_div_len_defined:
  assumes "0 < n" and "n < 2 ^ 53"
  shows "float_div_len x n = Inr (ieee_div (as_binary64 x) (Finite (of_nat n)))"
proof -
  have "as_binary64 (Finite (of_nat n)) = Finite (of_nat n)"
    using assms(2) by (simp add: as_binary64_representable representable_of_nat)
  moreover have "Finite (of_nat n) \<noteq> Finite 0" using assms(1) by simp
  ultimately show ?thesis
    using assms(2) by (simp add: float_div_len_def int_to_float_small float_truediv_def)
qed

lemma exactly_summable_sum:
  assumes "exactly_summable qs"
  shows "py_sum (map Finite qs) = Finite (sum_list qs)"
    and "py_sum_compensated (map Finite qs) = Finite (sum_list qs)"
proof -
  from assms have r: "\<forall>q\<in>set qs. representable q"
    and p: "\<forall>k\<le>length qs. representable (sum_list (take k qs))"
    by (simp_all add: exactly_summable_def)
  from p have p0: "\<forall>k\<le>length qs. representable (0 + sum_list (take k qs))" by simp
  from foldl_float_add_exact [OF representable_0 r p0]
  show "py_sum (map Finite qs) = Finite (sum_list qs)" by (simp add: py_sum_def)
  show "py_sum_compensated (map Finite qs) = Finite (sum_list qs)"
  proof (cases qs)
    case Nil
    then show ?thesis by (simp add: py_sum_compensated_def)
  next
    case (Cons q rest)
    from r Cons have rq: "representable q" and rr: "\<forall>x\<in>set rest. representable x" by simp_all
    have s: "float_add (Finite 0) (Finite q) = Finite q"
      using float_add_exact [OF representable_0 rq] rq by simp
    have "\<forall>k\<le>length rest. representable (q + sum_list (take k rest))"
    proof (intro allI impI)
      fix k assume "k \<le> length rest"
      then have "Suc k \<le> length qs" using Cons by simp
      moreover from p have "Suc k \<le> length qs \<longrightarrow> representable (sum_list (take (Suc k) qs))"
        by (rule spec)
      ultimately have "representable (sum_list (take (Suc k) qs))" by (rule rev_mp)
      then show "representable (q + sum_list (take k rest))" using Cons by simp
    qed
    from neumaier_exact [OF rq rr this] Cons s show ?thesis
      by (simp add: py_sum_compensated_def)
  qed
qed

lemma exactly_summable_10_20_30: "exactly_summable [10, 20, 30]"
proof -
  have "representable (of_int k)" if "\<bar>k\<bar> < 100" for k
    using that by (intro representable_of_int) simp
  from this [of 0] this [of 10] this [of 20] this [of 30] this [of 60]
  have r: "representable 0" "representable 10" "representable 20" "representable 30"
    "representable 60" by simp_all
  have "representable (sum_list (take k [10, 20, 30]))" if "k \<le> 3" for k
  proof -
    from that have "k = 0 \<or> k = Suc 0 \<or> k = Suc (Suc 0) \<or> k = Suc (Suc (Suc 0))" by auto
    then show ?thesis using r by (elim disjE) simp_all
  qed
  with r show ?thesis by (simp add: exactly_summable_def)
qed

lemma mean_of_exact_sum:
  assumes "qs \<noteq> []" and "length qs < 2 ^ 53" and "exactly_summable qs"
    and "representable (sum_list qs / of_nat (length qs))"
  shows "calculate_average_price (map Finite qs) =
           Inr (Some (Finite (sum_list qs / of_nat (length qs))))"
    and "calculate_average_price_compensated (map Finite qs) =
           Inr (Some (Finite (sum_list qs / of_nat (length qs))))"
proof -
  from assms(3) have "\<forall>k\<le>length qs. representable (sum_list (take k qs))"
    by (simp add: exactly_summable_def)
  then have "length qs \<le> length qs \<longrightarrow> representable (sum_list (take (length qs) qs))"
    by (rule spec)
  then have rs: "representable (sum_list qs)" by simp
  from assms(1) have n: "0 < length qs" by simp
  have d: "float_div_len (Finite (sum_list qs)) (length qs) =
      Inr (Finite (sum_list qs / of_nat (length qs)))"
    unfolding float_div_len_defined [OF n assms(2)]
    by (simp add: as_binary64_representable [OF rs] round64_representable [OF assms(4)])
  show "calculate_average_price (map Finite qs) =
           Inr (Some (Finite (sum_list qs / of_nat (length qs))))"
    using assms(1) d
    by (simp add: calculate_average_price_def exactly_summable_sum(1) [OF assms(3)])
  show "calculate_average_price_compensated (map Finite qs) =
           Inr (Some (Finite (sum_list qs / of_nat (length qs))))"
    using assms(1) d
    by (simp add: calculate_average_price_compensated_def exactly_summable_sum(2) [OF assms(3)])
qed

text \<open>
  C5, as the source has it. \<open>calculate_average_price\<close> returns no value on the empty
  sequence. On a non-empty sequence it does not raise and returns the binary64 quotient
  of the binary64 sum by the count. That is the arithmetic mean whenever the prices,
  every partial sum and the mean are binary64 values, as for 10.0, 20.0, 30.0, whose
  average is 20.0. All of this holds for the left-to-right sum and for the compensated
  sum of the later interpreters.
\<close>

theorem calculate_average_price_binary64:
  "calculate_average_price [] = Inr None \<and>
   calculate_average_price_compensated [] = Inr None \<and>
   (prices \<noteq> [] \<and> length prices < 2 ^ 53 \<longrightarrow>
      calculate_average_price prices =
        Inr (Some (ieee_div (as_binary64 (py_sum prices)) (Finite (of_nat (length prices))))) \<and>
      calculate_average_price_compensated prices =
        Inr (Some (ieee_div (as_binary64 (py_sum_compensated prices))
                     (Finite (of_nat (length prices)))))) \<and>
   (qs \<noteq> [] \<and> length qs < 2 ^ 53 \<and> exactly_summable qs \<and>
    representable (sum_list qs / of_nat (length qs)) \<longrightarrow>
      calculate_average_price (map Finite qs) =
        Inr (Some (Finite (sum_list qs / of_nat (length qs)))) \<and>
      calculate_average_price_compensated (map Finite qs) =
        Inr (Some (Finite (sum_list qs / of_nat (length qs))))) \<and>
   calculate_average_price [Finite 10, Finite 20, Finite 30] = Inr (Some (Finite 20)) \<and>
   calculate_average_price_compensated [Finite 10, Finite 20, Finite 30] =
     Inr (Some (Finite 20))"
proof -
  have e: "calculate_average_price [] = Inr None"
    "calculate_average_price_compensated [] = Inr None"
    by (simp_all add: calculate_average_price_def calculate_average_price_compensated_def)
  have g: "calculate_average_price prices =
        Inr (Some (ieee_div (as_binary64 (py_sum prices)) (Finite (of_nat (length prices)))))"
      "calculate_average_price_compensated prices =
        Inr (Some (ieee_div (as_binary64 (py_sum_compensated prices))
                     (Finite (of_nat (length prices)))))"
    if "prices \<noteq> []" "length prices < 2 ^ 53"
  proof -
    from that(1) have n: "0 < length prices" by simp
    show "calculate_average_price prices =
        Inr (Some (ieee_div (as_binary64 (py_sum prices)) (Finite (of_nat (length prices)))))"
      using that(1) by (simp add: calculate_average_price_def float_div_len_defined [OF n that(2)])
    show "calculate_average_price_compensated prices =
        Inr (Some (ieee_div (as_binary64 (py_sum_compensated prices))
                     (Finite (of_nat (length prices)))))"
      using that(1)
      by (simp add: calculate_average_price_compensated_def float_div_len_defined [OF n that(2)])
  qed
  have "representable (of_int 20)" by (intro representable_of_int) simp
  then have "representable (sum_list [10, 20, 30] / of_nat (length [10, 20, 30 :: rat]))"
    by simp
  from mean_of_exact_sum [OF _ _ exactly_summable_10_20_30 this]
  have x: "calculate_average_price [Finite 10, Finite 20, Finite 30] = Inr (Some (Finite 20))"
    "calculate_average_price_compensated [Finite 10, Finite 20, Finite 30] =
       Inr (Some (Finite 20))"
    by simp_all
  from e g mean_of_exact_sum [of qs] x show ?thesis by blast
qed

theorem calculate_average_price_binary64_witness:
  "[3, 5] \<noteq> ([] :: rat list) \<and> length [3, 5 :: rat] < 2 ^ 53 \<and> exactly_summable [3, 5] \<and>
   representable (sum_list [3, 5] / of_nat (length [3, 5 :: rat])) \<and>
   calculate_average_price [Finite 3, Finite 5] = Inr (Some (Finite 4)) \<and>
   calculate_average_price_compensated [Finite 3, Finite 5] = Inr (Some (Finite 4))"
proof -
  have "representable (of_int k)" if "\<bar>k\<bar> < 100" for k
    using that by (intro representable_of_int) simp
  from this [of 0] this [of 3] this [of 5] this [of 8] this [of 4]
  have r: "representable 0" "representable 3" "representable 5" "representable 8"
    "representable 4" by simp_all
  have "representable (sum_list (take k [3, 5]))" if "k \<le> 2" for k
  proof -
    from that have "k = 0 \<or> k = Suc 0 \<or> k = Suc (Suc 0)" by auto
    then show ?thesis using r by (elim disjE) simp_all
  qed
  with r have s: "exactly_summable [3, 5]" by (simp add: exactly_summable_def)
  have m: "representable (sum_list [3, 5] / of_nat (length [3, 5 :: rat]))"
    using r by simp
  have l: "[3, 5] \<noteq> ([] :: rat list) \<and> length [3, 5 :: rat] < 2 ^ 53" by simp
  from calculate_average_price_binary64 [of _ "[3, 5]"] l s m
  have "calculate_average_price (map Finite [3, 5]) =
        Inr (Some (Finite (sum_list [3, 5] / of_nat (length [3, 5 :: rat])))) \<and>
      calculate_average_price_compensated (map Finite [3, 5]) =
        Inr (Some (Finite (sum_list [3, 5] / of_nat (length [3, 5 :: rat]))))"
    by blast
  then have "calculate_average_price [Finite 3, Finite 5] = Inr (Some (Finite 4)) \<and>
   calculate_average_price_compensated [Finite 3, Finite 5] = Inr (Some (Finite 4))"
    by simp
  with l s m show ?thesis by blast
qed

text \<open>
  C5 as stated fails where the sum leaves the range of a float: two prices of
  \<open>2 ^ 1023\<close>, which is a binary64 value, have the arithmetic mean \<open>2 ^ 1023\<close>, and
  \<open>calculate_average_price\<close> returns infinity, under either sum.
\<close>

theorem average_overflows:
  "round64 (2 ^ 1023) = Finite (2 ^ 1023) \<and>
   sum_list [2 ^ 1023, 2 ^ 1023] / of_nat (length [2 ^ 1023, 2 ^ 1023 :: rat]) = (2 ^ 1023 :: rat) \<and>
   calculate_average_price [Finite (2 ^ 1023), Finite (2 ^ 1023)] = Inr (Some PosInf) \<and>
   calculate_average_price_compensated [Finite (2 ^ 1023), Finite (2 ^ 1023)] =
     Inr (Some PosInf)"
proof -
  define a :: rat where "a = 2 ^ 1023"
  have ra: "representable a" unfolding a_def by (rule representable_top)
  then have b: "as_binary64 (Finite a) = Finite a" by (rule as_binary64_representable)
  have "a + a = 2 * 2 ^ 1023" by (simp add: a_def)
  also have "\<dots> = 2 ^ Suc 1023" by (simp only: power_Suc)
  finally have "a + a = 2 ^ 1024" by simp
  then have o: "round64 (a + a) = PosInf" by (simp add: round64_overflow)
  have z: "float_add (Finite 0) (Finite a) = Finite a"
    using float_add_exact [OF representable_0 ra] ra by simp
  have t: "float_add (Finite a) (Finite a) = PosInf"
    unfolding float_add_def b using o by (simp only: ieee_add.simps)
  have s: "py_sum [Finite a, Finite a] = PosInf"
    by (simp add: py_sum_def z t)
  have i: "as_binary64 PosInf = PosInf" "as_binary64 NegInf = NegInf"
    by (simp_all add: as_binary64_def)
  have s1: "float_sub (Finite a) PosInf = NegInf"
    by (simp add: float_sub_def float_add_def b i)
  have s2: "float_add NegInf (Finite a) = NegInf"
    by (simp add: float_add_def b i)
  have s3: "float_add (Finite 0) NegInf = NegInf"
    by (simp add: float_add_def i as_binary64_representable [OF representable_0])
  have ge: "float_abs_ge (Finite a) (Finite a)"
    by (simp add: float_abs_ge_def b)
  have sc: "py_sum_compensated [Finite a, Finite a] = PosInf"
    by (simp add: py_sum_compensated_def z t ge s1 s2 s3 i is_finite_def Let_def)
  have d: "float_div_len PosInf (length [Finite a, Finite a]) = Inr PosInf"
    using float_div_len_defined [of "length [Finite a, Finite a]" PosInf] by (simp add: i)
  have m: "sum_list [a, a] / of_nat (length [a, a]) = a" by simp
  have "calculate_average_price [Finite a, Finite a] = Inr (Some PosInf)"
    unfolding calculate_average_price_def s d by simp
  moreover have "calculate_average_price_compensated [Finite a, Finite a] = Inr (Some PosInf)"
    unfolding calculate_average_price_compensated_def sc d by simp
  moreover have "round64 a = Finite a" using ra by (rule round64_representable)
  ultimately show ?thesis using m unfolding a_def by blast
qed

lemma find_exponent_fits:
  "find_exponent n e0 q = Some e \<Longrightarrow> q < 2 powi (53 + e) \<and> e0 \<le> e"
proof (induction n arbitrary: e0)
  case 0
  then show ?case by simp
next
  case (Suc n)
  show ?case
  proof (cases "q < 2 powi (53 + e0)")
    case True
    with Suc.prems show ?thesis by simp
  next
    case False
    with Suc.prems have "find_exponent n (e0 + 1) q = Some e" by simp
    from Suc.IH [OF this] show ?thesis by simp
  qed
qed

lemma find_exponent_least:
  assumes "2 powi (52 + e) \<le> q" and "q < 2 powi (53 + e)" and "- 1074 \<le> e" and "e \<le> 971"
  shows "find_exponent 2046 (- 1074) q = Some e"
proof -
  have "e < - 1074 + int 2046" using assms(4) by simp
  from find_exponent_Some [OF assms(2,3) this] obtain e' where
    f: "find_exponent 2046 (- 1074) q = Some e'" and le: "e' \<le> e" by blast
  have "e' = e"
  proof (rule ccontr)
    assume "e' \<noteq> e"
    with le have "53 + e' \<le> 52 + e" by simp
    then have "(2::rat) powi (53 + e') \<le> 2 powi (52 + e)"
      by (intro power_int_increasing) simp_all
    with assms(1) have "2 powi (53 + e') \<le> q" by simp
    with find_exponent_fits [OF f] show False by simp
  qed
  with f show ?thesis by simp
qed

lemma round64_positive:
  assumes "2 powi (52 + e) \<le> q" and "q < 2 powi (53 + e)" and "- 1074 \<le> e" and "e \<le> 971"
    and "of_int (round_half_even (q / 2 powi e)) * 2 powi e = v" and "v < 2 ^ 1024"
  shows "round64 q = Finite v"
proof -
  have "(0::rat) < 2 powi (52 + e)" by simp
  then have "0 < q" using assms(1) by (rule less_le_trans)
  then have a: "\<bar>q\<bar> = q" and n: "\<not> q < 0" by simp_all
  show ?thesis
    unfolding round64_def a find_exponent_least [OF assms(1-4)]
    using n assms(5,6) by (simp add: Let_def)
qed

lemma round_half_even_near:
  assumes "of_int k - 1 / 2 < x" and "x < of_int k + 1 / 2"
  shows "round_half_even x = k"
proof (cases "of_int k \<le> x")
  case True
  with assms(2) have "\<lfloor>x\<rfloor> = k" by (intro floor_unique) simp_all
  with assms(2) show ?thesis by (simp add: round_half_even_def Let_def)
next
  case False
  with assms(1) have "\<lfloor>x\<rfloor> = k - 1" by (intro floor_unique) simp_all
  with assms(1) False show ?thesis by (simp add: round_half_even_def Let_def)
qed

lemma round_half_even_tie:
  assumes "x = of_int k + 1 / 2"
  shows "round_half_even x = (if even k then k else k + 1)"
proof -
  have "\<lfloor>x\<rfloor> = k" unfolding assms by (intro floor_unique) simp_all
  then show ?thesis by (simp add: round_half_even_def Let_def assms)
qed

text \<open>
  Rounding at work, on the prices 9.99 and 10.00: the binary64 value of 9.99 is
  \<open>5623870034678907 / 2 ^ 49\<close>, its sum with 10 is a tie between two binary64 values
  and goes to the even one, and the average is \<open>2813342392223007 / 2 ^ 48\<close>, which
  prints as 9.995000000000001.
\<close>

lemma average_is_rounded:
  "calculate_average_price [Finite (999 / 100), Finite 10] =
     Inr (Some (Finite (2813342392223007 / 281474976710656)))"
proof -
  define a :: rat where "a = 5623870034678907 / 562949953421312"
  define s :: rat where "s = 2813342392223007 / 140737488355328"
  have "round_half_even (999 / 100 / 2 powi (- 49)) = 5623870034678907"
    by (rule round_half_even_near) simp_all
  then have r1: "round64 (999 / 100) = Finite a"
    by (intro round64_positive [where e = "- 49"]) (simp_all add: a_def)
  have "round_half_even (a / 2 powi (- 49)) = 5623870034678907"
    by (rule round_half_even_near) (simp_all add: a_def)
  then have r2: "round64 a = Finite a"
    by (intro round64_positive [where e = "- 49"]) (simp_all add: a_def)
  have r3: "round64 10 = Finite 10"
    using round64_representable [OF representable_of_int [of 10]] by simp
  have "round_half_even ((a + 10) / 2 powi (- 48)) =
      (if even (5626684784446013 :: int) then 5626684784446013 else 5626684784446013 + 1)"
    by (rule round_half_even_tie) (simp add: a_def)
  then have "round_half_even ((a + 10) / 2 powi (- 48)) = 5626684784446014" by simp
  then have r4: "round64 (a + 10) = Finite s"
    by (intro round64_positive [where e = "- 48"]) (simp_all add: a_def s_def)
  have "round_half_even (s / 2 powi (- 48)) = 5626684784446014"
    by (rule round_half_even_near) (simp_all add: s_def)
  then have r5: "round64 s = Finite s"
    by (intro round64_positive [where e = "- 48"]) (simp_all add: s_def)
  have "round_half_even (s / 2 / 2 powi (- 49)) = 5626684784446014"
    by (rule round_half_even_near) (simp_all add: s_def)
  then have r6: "round64 (s / 2) = Finite (s / 2)"
    by (intro round64_positive [where e = "- 49"]) (simp_all add: s_def)
  have z: "round64 0 = Finite 0" using round64_representable [OF representable_0] .
  have "py_sum [Finite (999 / 100), Finite 10] = Finite s"
    by (simp add: py_sum_def float_add_def as_binary64_def z r1 r2 r3 r4)
  moreover have "float_div_len (Finite s) (length [Finite (999 / 100), Finite 10]) =
      Inr (Finite (s / 2))"
    using float_div_len_defined [of "length [Finite (999 / 100), Finite 10]" "Finite s"]
    by (simp add: as_binary64_def r5 r6)
  ultimately show ?thesis
    unfolding calculate_average_price_def by (simp add: s_def)
qed

section \<open>Properties of the query builder\<close>

lemma base_url_no_space: "space \<notin> set (py ''https://www.vinted.co.uk/catalog'' @ py ''?search_text='')"
  by (simp add: py_def space_def)

lemma strip_decompose:
  "\<exists>pre suf. s = pre @ strip s @ suf \<and> (\<forall>c\<in>set pre. isspace c) \<and> (\<forall>c\<in>set suf. isspace c)"
proof -
  define t where "t = dropWhile isspace s"
  have s: "s = takeWhile isspace s @ t" by (simp add: t_def)
  have "rev (takeWhile isspace (rev t) @ dropWhile isspace (rev t)) =
        rev (dropWhile isspace (rev t)) @ rev (takeWhile isspace (rev t))"
    by (rule rev_append)
  then have "t = rev (dropWhile isspace (rev t)) @ rev (takeWhile isspace (rev t))"
    by (simp only: takeWhile_dropWhile_id rev_rev_ident)
  then have t: "t = strip s @ rev (takeWhile isspace (rev t))"
    by (simp only: strip_def t_def)
  have a: "\<forall>c\<in>set (takeWhile isspace s). isspace c" by (auto dest: set_takeWhileD)
  have b: "\<forall>c\<in>set (rev (takeWhile isspace (rev t))). isspace c" by (auto dest: set_takeWhileD)
  from s t have "s = takeWhile isspace s @ strip s @ rev (takeWhile isspace (rev t))" by simp
  with a b show ?thesis by blast
qed

text \<open>
  C6. The three parts are joined by single spaces; the joined string is trimmed, that
  is, split into leading white space, a middle part with no white space at either end,
  and trailing white space, of which the middle part is kept; the URL is the fixed
  endpoint with the parameter \<open>search_text\<close>, whose value is the middle part with
  every space replaced by a plus sign and every other character kept as it is, in
  place; and the URL contains no space.
\<close>

theorem construct_search_url_encoding:
  "\<exists>pre t suf.
     brand @ [space] @ description @ [space] @ condition = pre @ t @ suf \<and>
     (\<forall>c\<in>set pre. isspace c) \<and> (\<forall>c\<in>set suf. isspace c) \<and> trimmed t \<and>
     construct_search_url brand description condition =
       py ''https://www.vinted.co.uk/catalog'' @ py ''?search_text='' @
       map (\<lambda>c. if c = space then plus_sign else c) t \<and>
     space \<notin> set (construct_search_url brand description condition)"
proof -
  let ?s = "brand @ [space] @ description @ [space] @ condition"
  let ?t = "strip ?s"
  have u: "construct_search_url brand description condition =
     py ''https://www.vinted.co.uk/catalog'' @ py ''?search_text='' @
     map (\<lambda>c. if c = space then plus_sign else c) ?t"
    by (simp add: construct_search_url_def Let_def str_replace_map)
  have "space \<notin> set (map (\<lambda>c. if c = space then plus_sign else c) ?t)"
    by (auto simp: space_def plus_sign_def)
  with base_url_no_space have n: "space \<notin> set (construct_search_url brand description condition)"
    unfolding u by simp
  from strip_decompose [of ?s] obtain pre suf where
    "?s = pre @ ?t @ suf" "\<forall>c\<in>set pre. isspace c" "\<forall>c\<in>set suf. isspace c" by blast
  with u n strip_is_trimmed [of ?s] show ?thesis by blast
qed

theorem construct_search_url_encoding_witness:
  "construct_search_url [] (py ''  Air Force 1'') (py ''Good  '') =
     py ''https://www.vinted.co.uk/catalog?search_text=Air+Force+1+Good'' \<and>
   (\<exists>pre t suf.
     [] @ [space] @ py ''  Air Force 1'' @ [space] @ py ''Good  '' = pre @ t @ suf \<and>
     (\<forall>c\<in>set pre. isspace c) \<and> (\<forall>c\<in>set suf. isspace c) \<and> trimmed t \<and>
     construct_search_url [] (py ''  Air Force 1'') (py ''Good  '') =
       py ''https://www.vinted.co.uk/catalog'' @ py ''?search_text='' @
       map (\<lambda>c. if c = space then plus_sign else c) t)"
proof -
  have "construct_search_url [] (py ''  Air Force 1'') (py ''Good  '') =
     py ''https://www.vinted.co.uk/catalog?search_text=Air+Force+1+Good''"
    by (simp add: construct_search_url_def str_replace_map py_def space_def plus_sign_def
        strip_def isspace_def)
  with construct_search_url_encoding [of "[]" "py ''  Air Force 1''" "py ''Good  ''"]
  show ?thesis by blast
qed

section \<open>Properties of the input collection\<close>







section \<open>Properties of the run: the driver is released\<close>

lemma choose_condition_no_quit: "choose_condition ls = (r, ev) \<Longrightarrow> Quit \<notin> set ev"
  by (induction ls arbitrary: r ev) (auto simp: Let_def split: option.splits prod.splits)

lemma get_user_input_no_quit: "get_user_input stdin = (r, ev) \<Longrightarrow> Quit \<notin> set ev"
  by (auto simp: get_user_input_def Let_def menu_lines_def
      split: list.splits prod.splits sum.splits dest: choose_condition_no_quit)

lemma wait_for_price_no_quit: "wait_for_price w ls = (b, ev) \<Longrightarrow> Quit \<notin> set ev"
  by (induction ls arbitrary: b ev) (auto simp: Let_def split: option.splits prod.splits)

lemma wait_for_content_no_quit: "wait_for_content w = (r, ev) \<Longrightarrow> Quit \<notin> set ev"
  by (auto simp: wait_for_content_def Let_def split: option.splits prod.splits if_splits
      dest: wait_for_price_no_quit)

lemma collect_texts_no_quit: "collect_texts w els prices = (r, ev) \<Longrightarrow> Quit \<notin> set ev"
  by (induction els arbitrary: prices r ev)
    (auto simp: Let_def split: sum.splits prod.splits if_splits)

lemma collect_pound_texts_no_quit:
  "collect_pound_texts w els prices = (r, ev) \<Longrightarrow> Quit \<notin> set ev"
  by (induction els arbitrary: prices r ev)
    (auto simp: Let_def split: sum.splits prod.splits if_splits)

lemma try_patterns_no_quit: "try_patterns w ps prices = (r, ev) \<Longrightarrow> Quit \<notin> set ev"
  by (induction ps arbitrary: prices r ev)
    (auto simp: Let_def split: sum.splits prod.splits option.splits if_splits
      dest: collect_texts_no_quit)

lemma content_rule_no_quit: "content_rule w prices = (r, ev) \<Longrightarrow> Quit \<notin> set ev"
  by (auto simp: content_rule_def split: sum.splits prod.splits option.splits
      dest: collect_pound_texts_no_quit)

lemma extract_prices_no_quit: "extract_prices w = (r, ev) \<Longrightarrow> Quit \<notin> set ev"
  by (auto simp: extract_prices_def Let_def split: prod.splits if_splits
      dest: try_patterns_no_quit content_rule_no_quit)

lemma scrape_vinted_prices_no_quit: "scrape_vinted_prices w url = (r, ev) \<Longrightarrow> Quit \<notin> set ev"
  by (auto simp: scrape_vinted_prices_def Let_def split: prod.splits option.splits
      dest: wait_for_content_no_quit extract_prices_no_quit)

lemma report_no_quit: "Quit \<notin> set (report brand description condition avg)"
  by (auto simp: report_def split: option.splits)

lemma run_scrape_no_quit:
  "run_scrape dv w url brand description condition = (r, ev) \<Longrightarrow> Quit \<notin> set ev"
  using report_no_quit
  by (auto simp: run_scrape_def split: prod.splits sum.splits if_splits
      dest: scrape_vinted_prices_no_quit)

text \<open>
  C8. Whatever the world answers and however the body of the \<open>try\<close> ends (normally,
  by one of the early returns, or in the handler of the error), a run of \<open>main\<close> that
  acquired the driver ends with exactly one \<open>driver.quit()\<close>, as its last action and
  after the launch; a run that did not acquire it never calls \<open>quit\<close>.
\<close>

theorem main_releases_driver:
  assumes "main dv w stdin = (raised, ev)"
  shows "(driver_acquired w stdin \<longrightarrow>
            (\<exists>before. ev = before @ [Quit] \<and> Quit \<notin> set before \<and>
               Launch (chrome_arguments True) \<in> set before)) \<and>
         (\<not> driver_acquired w stdin \<longrightarrow> Quit \<notin> set ev)"
proof (cases "get_user_input stdin")
  case (Pair r ev0)
  note nq0 = get_user_input_no_quit [OF Pair]
  show ?thesis
  proof (cases r)
    case (Inl e)
    with Pair assms have "ev = ev0" by (simp add: main_def)
    with nq0 Pair Inl show ?thesis by (simp add: driver_acquired_def)
  next
    case (Inr q)
    obtain brand description condition rest where q: "q = ((brand, description, condition), rest)"
      by (cases q) auto
    show ?thesis
    proof (cases "launch w")
      case (Some e)
      with Pair Inr q assms
      have "ev = ev0 @ [Launch (chrome_arguments True)] @ [Print (ErrorOccurred e), Traceback]"
        by (simp add: main_def setup_driver_def)
      with nq0 Pair Inr Some show ?thesis by (simp add: driver_acquired_def)
    next
      case None
      obtain x ev2 where rs: "run_scrape dv w (construct_search_url brand description condition)
          brand description condition = (x, ev2)"
        by (cases "run_scrape dv w (construct_search_url brand description condition)
          brand description condition")
      define handler where
        "handler = (case x of Some e \<Rightarrow> [Print (ErrorOccurred e), Traceback] | None \<Rightarrow> [])"
      define before where
        "before = ev0 @ [Launch (chrome_arguments True)] @ ev2 @ handler @ [Print Thanks, Print SeeYou]"
      have "ev = before @ [Quit]"
        using Pair Inr q None rs assms
        by (simp add: main_def setup_driver_def Let_def handler_def before_def)
      moreover have "Quit \<notin> set handler"
        by (simp add: handler_def split: option.splits)
      then have "Quit \<notin> set before"
        using nq0 run_scrape_no_quit [OF rs] by (simp add: before_def)
      moreover have "Launch (chrome_arguments True) \<in> set before" by (simp add: before_def)
      ultimately show ?thesis
        using Pair Inr None by (auto simp: driver_acquired_def)
    qed
  qed
qed

theorem main_releases_driver_witness:
  "driver_acquired offline_world [py ''Nike'', py ''shoes'', py ''3''] \<and>
   (\<exists>before. snd (main ascii_decimals offline_world [py ''Nike'', py ''shoes'', py ''3''])
        = before @ [Quit] \<and> Quit \<notin> set before)"
proof -
  have g: "fst (get_user_input [py ''Nike'', py ''shoes'', py ''3'']) =
      Inr ((py ''Nike'', py ''shoes'', py ''Very Good''), [])"
    by (simp add: get_user_input_def condition_menu_def py_def strip_def isspace_def)
  then have a: "driver_acquired offline_world [py ''Nike'', py ''shoes'', py ''3'']"
    by (simp add: driver_acquired_def offline_world_def)
  obtain r ev where m: "main ascii_decimals offline_world [py ''Nike'', py ''shoes'', py ''3''] = (r, ev)"
    by (cases "main ascii_decimals offline_world [py ''Nike'', py ''shoes'', py ''3'']")
  from main_releases_driver [OF m] a m show ?thesis by auto
qed

section \<open>Properties of the extractor\<close>

lemma collect_texts_events:
  "collect_texts w els prices = (r, ev) \<Longrightarrow> FindElements l \<notin> set ev"
  by (induction els arbitrary: prices r ev)
    (auto simp: Let_def split: sum.splits prod.splits if_splits)

lemma try_patterns_events:
  "try_patterns w ps prices = (r, ev) \<Longrightarrow> FindElements (XPATH, x) \<notin> set ev"
  by (induction ps arbitrary: prices r ev)
    (auto simp: Let_def split: sum.splits prod.splits option.splits if_splits
      dest: collect_texts_events)

lemma content_rule_events:
  "content_rule w prices = (r, ev) \<Longrightarrow> FindElements (XPATH, xpath_pound) \<in> set ev"
  by (auto simp: content_rule_def split: sum.splits prod.splits option.splits)

lemma try_patterns_no_match:
  "\<forall>p\<in>set ps. \<not> pattern_matches w p \<Longrightarrow> try_patterns w ps prices = (r, ev) \<Longrightarrow> r = prices"
  by (induction ps arbitrary: prices r ev)
    (auto simp: pattern_matches_def Let_def split: sum.splits prod.splits)

text \<open>
  C4, as the source has it. The fallback is guarded by \<open>if not prices\<close>: the content
  rule is attempted exactly when the structural search has collected no non-empty text.
  So it is attempted whenever no structural rule matched any element, and it is never
  consulted once the structural search has produced a fragment.
\<close>

theorem content_rule_iff_no_fragment:
  "(content_rule_attempted w \<longleftrightarrow> fst (try_patterns w price_patterns []) = []) \<and>
   (\<not> structural_match w \<longrightarrow> content_rule_attempted w)"
proof -
  obtain prices ev1 where t: "try_patterns w price_patterns [] = (prices, ev1)"
    by (cases "try_patterns w price_patterns []")
  note nx = try_patterns_events [OF t, of xpath_pound]
  have a: "content_rule_attempted w \<longleftrightarrow> prices = []"
  proof (cases "prices = []")
    case True
    obtain ps ev2 where c: "content_rule w [] = (ps, ev2)" by (cases "content_rule w []")
    from content_rule_events [OF c] t True c show ?thesis
      by (simp add: content_rule_attempted_def extract_prices_def)
  next
    case False
    with t nx show ?thesis
      by (simp add: content_rule_attempted_def extract_prices_def)
  qed
  have "prices = []" if "\<not> structural_match w"
    using that try_patterns_no_match [OF _ t]
    by (simp add: structural_match_def list_ex_iff)
  with a t show ?thesis by simp
qed

theorem content_rule_iff_no_fragment_witness:
  "fst (try_patterns second_rule_world price_patterns []) = [pound # py ''9.99''] \<and>
   \<not> content_rule_attempted second_rule_world"
proof -
  have "fst (try_patterns second_rule_world price_patterns []) = [pound # py ''9.99'']"
    by (simp add: second_rule_world_def price_patterns_def py_def strip_def isspace_def
        pound_def)
  with content_rule_iff_no_fragment [of second_rule_world] show ?thesis by simp
qed

text \<open>
  C4 as stated fails: on a page where the first structural rule matches one element
  whose visible text is empty, a structural rule has matched and the content rule is
  consulted all the same.
\<close>

theorem content_rule_after_structural_match:
  "structural_match hidden_price_world \<and> content_rule_attempted hidden_price_world"
  by (simp add: structural_match_def pattern_matches_def content_rule_attempted_def
      extract_prices_def content_rule_def hidden_price_world_def price_patterns_def
      xpath_pound_def py_def strip_def isspace_def pound_def)

lemma collect_texts_all_read:
  "\<forall>el\<in>set els. \<exists>t. text_of w el = Inr t \<Longrightarrow> collect_texts w els prices = (r, ev) \<Longrightarrow>
     r = (None, prices @ filter (\<lambda>t. t \<noteq> []) (map (\<lambda>el. strip (projr (text_of w el))) els))"
proof (induction els arbitrary: prices r ev)
  case Nil
  then show ?case by simp
next
  case (Cons el els)
  then obtain t where t: "text_of w el = Inr t" by auto
  let ?ps = "if strip t \<noteq> [] then prices @ [strip t] else prices"
  obtain r' ev' where c: "collect_texts w els ?ps = (r', ev')"
    by (cases "collect_texts w els ?ps")
  from Cons.prems(1) have "\<forall>el\<in>set els. \<exists>t. text_of w el = Inr t" by simp
  from Cons.IH [OF this c]
  have "r' = (None, ?ps @ filter (\<lambda>t. t \<noteq> []) (map (\<lambda>el. strip (projr (text_of w el))) els))" .
  moreover from Cons.prems(2) t c have "r = r'" by (simp add: Let_def)
  ultimately show ?case using t by simp
qed

text \<open>
  The first-match behaviour of the structural search, on a page whose texts can all be
  read: the patterns before the first matching one contribute nothing, and the result is
  the list of the trimmed non-empty texts of that pattern's elements, whatever the later
  patterns would find.
\<close>

lemma try_patterns_first_match:
  assumes "\<forall>p\<in>set before. \<not> pattern_matches w p"
    and "find_elements w (CSS_SELECTOR, pattern) = Inr els" and "els \<noteq> []"
    and "\<forall>el\<in>set els. \<exists>t. text_of w el = Inr t"
  shows "fst (try_patterns w (before @ pattern # later) []) =
           filter (\<lambda>t. t \<noteq> []) (map (\<lambda>el. strip (projr (text_of w el))) els)"
  using assms(1)
proof (induction before)
  case Nil
  obtain ev where "collect_texts w els [] =
      ((None, filter (\<lambda>t. t \<noteq> []) (map (\<lambda>el. strip (projr (text_of w el))) els)), ev)"
    using collect_texts_all_read [OF assms(4), of "[]"]
    by (cases "collect_texts w els []") auto
  with assms(2,3) show ?case by simp
next
  case (Cons p ps)
  then show ?case
    by (auto simp: pattern_matches_def Let_def split: sum.splits prod.splits)
qed

text \<open>
  C2 fails where reading a text raises in the middle of a pattern's elements: the first
  pattern matches two elements, the text of the first is kept, the second read raises,
  and the second pattern's element is then appended to the same list.
\<close>

theorem structural_search_merges_after_error:
  "pattern_matches stale_world (py ''[class*='price']'') \<and>
   find_elements stale_world (CSS_SELECTOR, py ''[data-testid*='price']'') = Inr [3] \<and>
   text_of stale_world 3 = Inr (pound # py ''7'') \<and>
   fst (try_patterns stale_world price_patterns []) = [pound # py ''5'', pound # py ''7'']"
  by (simp add: pattern_matches_def stale_world_def price_patterns_def py_def strip_def
      isspace_def pound_def)

text \<open>
  The failure that the source does recover from: when the wait for content raises
  (lines 116 to 149), \<open>scrape_vinted_prices\<close> returns the empty list and the run
  reports that no prices were found, without entering the handler of \<open>main\<close>.
\<close>

lemma wait_failure_recovers:
  assumes "navigate w url = None" and "fst (wait_for_content w) = Some e"
  shows "fst (scrape_vinted_prices w url) = Inr []"
    and "fst (run_scrape dv w url brand description condition) = None"
    and "Print NoPricesFound \<in> set (snd (run_scrape dv w url brand description condition))"
proof -
  obtain ev where "wait_for_content w = (Some e, ev)"
    using assms(2) by (cases "wait_for_content w") auto
  with assms(1) have s: "scrape_vinted_prices w url =
      (Inr [], [Print (LoadingPage url), Get url] @ ev @ [Print CheckConnection])"
    by (simp add: scrape_vinted_prices_def)
  then show "fst (scrape_vinted_prices w url) = Inr []" by simp
  from s show "fst (run_scrape dv w url brand description condition) = None"
    and "Print NoPricesFound \<in> set (snd (run_scrape dv w url brand description condition))"
    by (simp_all add: run_scrape_def)
qed

text \<open>
  C3 fails for the failure of the navigation itself: \<open>driver.get\<close> (line 111) stands
  before the \<open>try\<close>, so when the page cannot be reached the error leaves
  \<open>scrape_vinted_prices\<close>, the run never reports that no prices were found, and the
  handler of \<open>main\<close> reports the error.
\<close>

theorem navigation_failure_reaches_handler:
  "fst (scrape_vinted_prices offline_world
          (construct_search_url (py ''Nike'') (py ''shoes'') (py ''Very Good''))) =
     Inl WebDriverException \<and>
   Print (ErrorOccurred WebDriverException) \<in>
     set (snd (main ascii_decimals offline_world [py ''Nike'', py ''shoes'', py ''3''])) \<and>
   Print NoPricesFound \<notin>
     set (snd (main ascii_decimals offline_world [py ''Nike'', py ''shoes'', py ''3'']))"
proof -
  have g: "get_user_input [py ''Nike'', py ''shoes'', py ''3''] =
      (Inr ((py ''Nike'', py ''shoes'', py ''Very Good''), []),
       [Print Banner, Print Title, Print Banner, Input AskBrand, Input AskDescription] @
       menu_lines @ [Input AskChoice])"
    by (simp add: get_user_input_def condition_menu_def py_def strip_def isspace_def)
  have s: "scrape_vinted_prices offline_world url =
      (Inl WebDriverException, [Print (LoadingPage url), Get url])" for url
    by (simp add: scrape_vinted_prices_def offline_world_def)
  have r: "run_scrape ascii_decimals offline_world url b d c =
      (Some WebDriverException, [Print (LoadingPage url), Get url])" for url b d c
    by (simp add: run_scrape_def s)
  have l: "setup_driver offline_world True = (Inr (), [Launch (chrome_arguments True)])"
    by (simp add: setup_driver_def offline_world_def)
  show ?thesis
    unfolding main_def g by (simp add: s r l menu_lines_def Let_def)
qed

end
